theory Spec2Isabelle
  imports Complex_Main "HOL-Library.Sublist" "HOL-Library.AList"
begin

section \<open>Python values\<close>

text \<open>
  A Python \<^verbatim>\<open>str\<close> is a sequence of Unicode code points, so a character is
  modelled by its code point (\<open>ord\<close>) and \<open>len\<close> by \<open>length\<close>.  ASCII
  literals of the notebooks are written with \<open>ascii\<close>.  Python floats
  (\<^verbatim>\<open>float64\<close>) are modelled by \<open>real\<close>: the notebooks' own code only
  compares them, subtracts a price from a price and converts whole numbers, and the
  numerical routines are external.
\<close>

type_synonym pychar = nat
type_synonym pystr = "pychar list"

definition ascii :: "string \<Rightarrow> pystr" where
  "ascii s = map of_char s"

text \<open>Exceptions are values; \<open>LibraryError\<close> stands for whatever an external
  routine raises, identified by a number.\<close>

datatype exn = IndexError | KeyError | ValueError | LibraryError nat

subsection \<open>String methods\<close>

text \<open>\<^verbatim>\<open>s.startswith(p)\<close>.\<close>

definition startswith :: "pystr \<Rightarrow> pystr \<Rightarrow> bool" where
  "startswith s p = prefix p s"

text \<open>\<^verbatim>\<open>string.punctuation\<close>: the 32 ASCII punctuation characters, in code point
  order (33 to 47, 58 to 64, 91 to 96, 123 to 126).\<close>

definition punctuation :: pystr where
  "punctuation = [33..<48] @ [58..<65] @ [91..<97] @ [123..<127]"

text \<open>\<^verbatim>\<open>str.maketrans(x, y)\<close> builds a dictionary from the code points of \<open>x\<close> to
  those of \<open>y\<close>; \<^verbatim>\<open>s.translate(table)\<close> replaces every character the table
  maps and keeps the others.\<close>

definition maketrans :: "pystr \<Rightarrow> pystr \<Rightarrow> (pychar \<rightharpoonup> pychar)" where
  "maketrans x y = fold (\<lambda>(c, d) m. m(c \<mapsto> d)) (zip x y) Map.empty"

definition translate :: "(pychar \<rightharpoonup> pychar) \<Rightarrow> pystr \<Rightarrow> pystr" where
  "translate table s = map (\<lambda>c. case table c of Some d \<Rightarrow> d | None \<Rightarrow> c) s"

text \<open>\<^verbatim>\<open>str.isspace\<close> on one character: the Unicode white space characters.\<close>

definition py_isspace :: "pychar \<Rightarrow> bool" where
  "py_isspace c \<longleftrightarrow>
     (9 \<le> c \<and> c \<le> 13) \<or> (28 \<le> c \<and> c \<le> 32) \<or> c = 133 \<or> c = 160 \<or> c = 5760 \<or>
     (8192 \<le> c \<and> c \<le> 8202) \<or> c = 8232 \<or> c = 8233 \<or> c = 8239 \<or> c = 8287 \<or> c = 12288"

text \<open>\<^verbatim>\<open>s.split()\<close>: the maximal runs of characters that are not white space.
  \<open>cur\<close> is the run being read.\<close>

fun split_from :: "pystr \<Rightarrow> pystr \<Rightarrow> pystr list" where
  "split_from cur [] = (if cur = [] then [] else [cur])"
| "split_from cur (c # cs) =
     (if py_isspace c
      then (if cur = [] then split_from [] cs else cur # split_from [] cs)
      else split_from (cur @ [c]) cs)"

definition py_split :: "pystr \<Rightarrow> pystr list" where
  "py_split s = split_from [] s"

text \<open>\<^verbatim>\<open>s.ljust(width, fill)\<close> and \<^verbatim>\<open>s.center(width, fill)\<close>: both return \<open>s\<close>
  itself when it is at least \<open>width\<close> long; \<open>center\<close> puts the odd character of
  padding on the left only when the width is odd too.\<close>

definition ljust :: "nat \<Rightarrow> pychar \<Rightarrow> pystr \<Rightarrow> pystr" where
  "ljust width fill s = s @ replicate (width - length s) fill"

definition center :: "nat \<Rightarrow> pychar \<Rightarrow> pystr \<Rightarrow> pystr" where
  "center width fill s =
     (let marg = width - length s;
          left = marg div 2 + (if odd marg \<and> odd width then 1 else 0)
      in replicate left fill @ s @ replicate (marg - left) fill)"

text \<open>\<^verbatim>\<open>str(i)\<close> of an integer, and \<^verbatim>\<open>int(x)\<close> of a float (truncation towards
  zero).\<close>

fun digits :: "nat \<Rightarrow> pystr" where
  "digits n = (if n < 10 then [48 + n] else digits (n div 10) @ [48 + n mod 10])"

declare digits.simps [simp del]

definition str_int :: "int \<Rightarrow> pystr" where
  "str_int i = (if i < 0 then 45 # digits (nat (- i)) else digits (nat i))"

definition py_int :: "real \<Rightarrow> int" where
  "py_int x = (if x < 0 then \<lceil>x\<rceil> else \<lfloor>x\<rfloor>)"

subsection \<open>Regular expressions of the notebook\<close>

text \<open>
  \<^verbatim>\<open>re.findall('<t>(.*?)</t>', s)\<close> for a tag name \<open>t\<close>.  The scan goes left to
  right; at an opening tag the group is extended lazily, one character that is not a
  newline (code point 10) at a time, until the closing tag follows; the search goes on
  after the match.  Where no closing tag is reached before a newline or the end, the
  opening tag is no match and the scan moves one character on.
\<close>

fun lazy_group :: "pystr \<Rightarrow> pystr \<Rightarrow> (pystr \<times> pystr) option" where
  "lazy_group closing [] = (if closing = [] then Some ([], []) else None)"
| "lazy_group closing (c # cs) =
     (if prefix closing (c # cs) then Some ([], drop (length closing) (c # cs))
      else if c = 10 then None
      else (case lazy_group closing cs of
              None \<Rightarrow> None
            | Some (g, rest) \<Rightarrow> Some (c # g, rest)))"

lemma lazy_group_decomp:
  "lazy_group closing s = Some (g, rest) \<Longrightarrow> s = g @ closing @ rest \<and> 10 \<notin> set g"
proof (induction s arbitrary: g rest)
  case Nil
  then show ?case by (simp split: if_splits)
next
  case (Cons c cs)
  show ?case
  proof (cases "prefix closing (c # cs)")
    case True
    with Cons.prems have "g = []" "rest = drop (length closing) (c # cs)" by simp_all
    moreover from True have "c # cs = closing @ drop (length closing) (c # cs)"
      by (metis append_eq_conv_conj prefix_def)
    ultimately show ?thesis by simp
  next
    case False
    with Cons.prems obtain g' where g': "lazy_group closing cs = Some (g', rest)" "g = c # g'" "c \<noteq> 10"
      by (auto split: if_splits option.splits)
    from Cons.IH [OF g'(1)] g'(2,3) show ?thesis by simp
  qed
qed

lemma lazy_group_length:
  "lazy_group closing s = Some (g, rest) \<Longrightarrow> length rest \<le> length s"
  by (drule lazy_group_decomp) simp

function findall_tag :: "pystr \<Rightarrow> pystr \<Rightarrow> pystr list" where
  "findall_tag t [] = []"
| "findall_tag t (c # cs) =
     (if prefix (60 # t @ [62]) (c # cs) then
        (case lazy_group ([60, 47] @ t @ [62]) (drop (length (60 # t @ [62])) (c # cs)) of
           Some (g, rest) \<Rightarrow> g # findall_tag t rest
         | None \<Rightarrow> findall_tag t cs)
      else findall_tag t cs)"
  by pat_completeness auto
termination
proof (relation "measure (\<lambda>(t, s). length s)")
  show "wf (measure (\<lambda>(t, s). length s))" by simp
next
  fix t :: pystr and c cs x2 x y
  assume "lazy_group ([60, 47] @ t @ [62]) (drop (length (60 # t @ [62])) (c # cs)) = Some x2"
    and "(x, y) = x2"
  then have "length y \<le> length (drop (length (60 # t @ [62])) (c # cs))"
    using lazy_group_length by metis
  then show "((t, y), t, c # cs) \<in> measure (\<lambda>(t, s). length s)" by simp
qed simp_all

section \<open>The word list of the classification notebook\<close>

text \<open>The explicit stop word list of the notebook.\<close>

definition stopwords :: "pystr list" where
  "stopwords = map ascii [
    ''then'', ''that'', ''have'', ''with'', ''from'', ''they'', ''here'', ''there'', ''their'',
    ''would'', ''what'', ''which'', ''about'', ''know'', ''just'', ''time'', ''like'', ''make'',
    ''your'', ''year'', ''some'', ''good'', ''into'', ''people'', ''them'', ''other'', ''than'',
    ''look'', ''only'', ''over'', ''think'', ''also'', ''back'', ''after'', ''work'', ''first'',
    ''well'', ''even'', ''want'', ''because'', ''these'', ''most'', ''leave'', ''seem'',
    ''come'', ''little'', ''last'', ''long'', ''great'', ''high'', ''small'', ''large'',
    ''next'', ''early'', ''same'', ''this'', ''away'', ''down'', ''look'', ''make'', ''three'',
    ''came'', ''four'', ''please'', ''pretty'', ''soon'', ''under'', ''went'', ''white'',
    ''black'', ''give'', ''giving'', ''given'', ''gave'', ''knowing'', ''knew'', ''once'',
    ''round'', ''stop'', ''take'', ''taken'', ''took'', ''thank'', ''thanks'', ''walk'',
    ''walked'', ''always'', ''around'', ''been'', ''before'', ''best'', ''worst'', ''find'',
    ''found'', ''goes'', ''pull'', ''read'', ''right'', ''wrong'', ''tell'', ''telling'',
    ''told'', ''upon'', ''wish'', ''write'', ''written'', ''better'', ''carry'', ''carried'',
    ''full'', ''hold'', ''keep'', ''kept'', ''longer'', ''longest'', ''shall'', ''will'',
    ''begin'', ''beginning'', ''together'', ''today'', ''yesterday'', ''children'', ''ground'',
    ''hold'', ''holding'', ''morning'', ''afternoon'', ''never'', ''myself'', ''table'',
    ''water'', ''wind'', ''window'', ''ring'', ''rung'', ''except'', ''where'', ''while'',
    ''woman'', ''whilst'', ''were'', ''until'', ''thing'', ''things'', ''theirs'', ''monday'',
    ''tuesday'', ''wednesday'', ''thursday'', ''friday'', ''saturday'', ''sunday'', ''should'',
    ''shown'', ''shut'', ''another'', ''being'', ''does'', ''doing'', ''make'', ''makes'',
    ''more'', ''name'', ''names'', ''named'', ''through'', ''years'', ''used'', ''said'',
    ''saying'', ''says'', ''seen'', ''sees'', ''seeing'', ''using'', ''uses'', ''known'',
    ''left'', ''send'', ''sent'', ''choose'', ''choice'', ''choosing'', ''going'', ''gets'',
    ''below'', ''less'', ''least'', ''might'', ''href'', ''link'', ''https'', ''a939'',
    ''abbe'', ''ac30f6e24b3f'', ''ababa'']"

text \<open>
  The three cleaning cells.  Each is a list comprehension over the current \<open>words\<close>;
  the first one iterates the set of collected words, so its argument is that set in
  the order Python iterates it.  The last cell is eleven comprehensions, one per
  leading character: the pound sign (code point 163), then the digits 1 to 9 and 0.
\<close>

definition drop_stopwords :: "pystr list \<Rightarrow> pystr list" where
  "drop_stopwords ws = [word \<leftarrow> ws. \<not> word \<in> set stopwords]"

definition drop_short :: "pystr list \<Rightarrow> pystr list" where
  "drop_short ws = [word \<leftarrow> ws. \<not> length word < 4]"

definition drop_leading :: "pystr \<Rightarrow> pystr list \<Rightarrow> pystr list" where
  "drop_leading p ws = [word \<leftarrow> ws. \<not> startswith word p]"

definition leading_chars :: "pystr list" where
  "leading_chars = [[163], ascii ''1'', ascii ''2'', ascii ''3'', ascii ''4'', ascii ''5'',
     ascii ''6'', ascii ''7'', ascii ''8'', ascii ''9'', ascii ''0'']"

definition clean_words :: "pystr list \<Rightarrow> pystr list" where
  "clean_words ws = fold drop_leading leading_chars (drop_short (drop_stopwords ws))"

text \<open>The words of the claim: a word that starts with the pound sign or with one of
  the decimal digits 0 to 9.\<close>

definition starts_with_pound_or_digit :: "pystr \<Rightarrow> bool" where
  "starts_with_pound_or_digit word =
     (case word of [] \<Rightarrow> False | c # _ \<Rightarrow> c = 163 \<or> (48 \<le> c \<and> c \<le> 57))"

definition kept_word :: "pystr \<Rightarrow> bool" where
  "kept_word word \<longleftrightarrow>
     word \<notin> set stopwords \<and> 4 \<le> length word \<and> \<not> starts_with_pound_or_digit word"

text \<open>A list is an iteration order of a Python set when it lists each element once.\<close>

definition iteration_of :: "'a set \<Rightarrow> 'a list \<Rightarrow> bool" where
  "iteration_of S xs \<longleftrightarrow> distinct xs \<and> set xs = S"

section \<open>Tokens of a page\<close>

text \<open>
  \<^verbatim>\<open>trans = str.maketrans(string.punctuation, ' '*len(string.punctuation))\<close>, and
  the inner loop of the parsing cell:
  \<^verbatim>\<open>for para in paras: pagewords += para.translate(trans).split()\<close>.
\<close>

definition trans :: "pychar \<rightharpoonup> pychar" where
  "trans = maketrans punctuation (replicate (length punctuation) 32)"

definition pagewords :: "pystr list \<Rightarrow> pystr list" where
  "pagewords paras = fold (\<lambda>para pw. pw @ py_split (translate trans para)) paras []"

section \<open>Dictionaries, counters and the data matrix\<close>

text \<open>
  A Python dictionary keeps its keys in insertion order; it is an association list in
  which an assignment replaces the value of a key that is present and appends a key
  that is not (\<open>AList.update\<close>).  \<^verbatim>\<open>Counter(xs)\<close> counts the elements of \<open>xs\<close>
  one by one.
\<close>

definition dict_get :: "('k \<times> 'v) list \<Rightarrow> 'k \<Rightarrow> 'v \<Rightarrow> 'v" where
  "dict_get d k dflt = (case map_of d k of Some v \<Rightarrow> v | None \<Rightarrow> dflt)"

definition keys :: "('k \<times> 'v) list \<Rightarrow> 'k list" where
  "keys d = map fst d"

definition dict_values :: "('k \<times> 'v) list \<Rightarrow> 'v list" where
  "dict_values d = map snd d"

definition Counter :: "'k list \<Rightarrow> ('k \<times> int) list" where
  "Counter xs = fold (\<lambda>x d. AList.update x (dict_get d x 0 + 1) d) xs []"

text \<open>
  The data matrix cell:
  \<^verbatim>\<open>for word in words: masterdict[word] = [dic.get(word, 0) for dic in dicts]\<close>
  and \<^verbatim>\<open>a = np.asfortranarray(np.array(list(masterdict.values())), dtype=np.float64)\<close>.
  The array is the list of its rows; the empty list is the array of shape \<open>(0,)\<close> that
  \<open>np.array\<close> makes of an empty list.
\<close>

definition masterdict :: "pystr list \<Rightarrow> (pystr \<times> int) list list \<Rightarrow> (pystr \<times> int list) list" where
  "masterdict ws dicts =
     fold (\<lambda>word md. AList.update word [dict_get dic word 0. dic \<leftarrow> dicts] md) ws []"

definition data_matrix :: "pystr list \<Rightarrow> (pystr \<times> int) list list \<Rightarrow> real list list" where
  "data_matrix ws dicts = map (map of_int) (dict_values (masterdict ws dicts))"

section \<open>The word count table\<close>

text \<open>
  Errors of the notebook's own code (indexing) are values of \<open>exn + 'a\<close>; a loop whose
  body may raise stops at the first exception.
\<close>

fun for_each :: "'a list \<Rightarrow> ('a \<Rightarrow> 's \<Rightarrow> exn + 's) \<Rightarrow> 's \<Rightarrow> exn + 's" where
  "for_each [] body s = Inr s"
| "for_each (x # xs) body s =
     (case body x s of Inl e \<Rightarrow> Inl e | Inr s' \<Rightarrow> for_each xs body s')"

text \<open>\<^verbatim>\<open>xs[i]\<close> on a list or a one-dimensional array and \<^verbatim>\<open>a[i, j]\<close> on an array
  given by its rows, for indices that are not negative.\<close>

definition py_get :: "'a list \<Rightarrow> nat \<Rightarrow> exn + 'a" where
  "py_get xs i = (if i < length xs then Inr (xs ! i) else Inl IndexError)"

definition nd_get :: "'a list list \<Rightarrow> nat \<Rightarrow> nat \<Rightarrow> exn + 'a" where
  "nd_get a i j =
     (if i < length a \<and> j < length (a ! i) then Inr (a ! i ! j) else Inl IndexError)"

text \<open>
  The cell that writes \<^verbatim>\<open>wordcounts.txt\<close>.  The file is the list of the lines printed
  to it.  The header starts with 14 spaces and has one label per link,
  \<^verbatim>\<open>('link ' + str(i+1)).ljust(8, ' ')\<close>; the line of word \<open>v\<close> at row \<open>i\<close> is
  \<^verbatim>\<open>v.ljust(14, ' ')\<close> followed by \<^verbatim>\<open>str(int(a[i,j])).center(8, ' ')\<close> for each
  column \<open>j\<close>.
\<close>

definition header_line :: "nat \<Rightarrow> pystr" where
  "header_line n_links =
     fold (\<lambda>i st. st @ ljust 8 32 (ascii ''link '' @ str_int (int i + 1))) [0..<n_links]
       (replicate 14 32)"

definition word_line :: "real list list \<Rightarrow> nat \<Rightarrow> nat \<Rightarrow> pystr \<Rightarrow> exn + pystr" where
  "word_line a n_links i v =
     for_each [0..<n_links]
       (\<lambda>j st. case nd_get a i j of
                  Inl e \<Rightarrow> Inl e
                | Inr x \<Rightarrow> Inr (st @ center 8 32 (str_int (py_int x))))
       (ljust 14 32 v)"

definition write_wordcounts :: "nat \<Rightarrow> pystr list \<Rightarrow> real list list \<Rightarrow> exn + pystr list" where
  "write_wordcounts n_links ws a =
     for_each (enumerate 0 ws)
       (\<lambda>(i, v) f2. case word_line a n_links i v of
                       Inl e \<Rightarrow> Inl e
                     | Inr st \<Rightarrow> Inr (f2 @ [st]))
       [header_line n_links]"


section \<open>External calls\<close>

text \<open>
  The notebooks call routines that are not theirs: the web (\<open>urllib\<close>), the NAG
  library, NumPy, SciPy and pandas.  Such a call is an event of the run; the history
  of a run lists the calls made so far, each with the exception it raised, if any.
  What a routine returns is a parameter of the model, and it may depend on the
  history, so that two calls with the same arguments need not agree (a web page can
  change between two downloads, a random number generator has a state).
\<close>

datatype call =
    Urlopen pystr
  | Real_nmf | Np_matmul | Np_subtract | Scipy_norm | Pd_DataFrame | Pd_set_option
  | Rand_init_nonrepeat | Rand_dist_uniform | Contfn_cntin | Opt_imp_vol int
  | Handle_init | Handle_set_linobj | Handle_set_simplebounds | Handle_set_linconstr
  | Handle_set_group | Handle_opt_set | FileObjManager | Handle_solve_socp_ipm | Handle_free

type_synonym event = "call \<times> exn option"
type_synonym history = "event list"

text \<open>A piece of notebook code takes the history so far and gives the history after
  it and either the exception that ended it or its value.\<close>

type_synonym 'a prog = "history \<Rightarrow> history \<times> (exn + 'a)"

definition ret :: "'a \<Rightarrow> 'a prog" where
  "ret x hist = (hist, Inr x)"

definition lift :: "exn + 'a \<Rightarrow> 'a prog" where
  "lift r hist = (hist, r)"

definition bind :: "'a prog \<Rightarrow> ('a \<Rightarrow> 'b prog) \<Rightarrow> 'b prog" where
  "bind m f hist =
     (case m hist of
        (hist', Inl e) \<Rightarrow> (hist', Inl e)
      | (hist', Inr x) \<Rightarrow> f x hist')"

definition outcome :: "exn + 'a \<Rightarrow> exn option" where
  "outcome r = (case r of Inl e \<Rightarrow> Some e | Inr x \<Rightarrow> None)"

definition ext :: "call \<Rightarrow> (history \<Rightarrow> exn + 'a) \<Rightarrow> 'a prog" where
  "ext c f hist = (let r = f hist in (hist @ [(c, outcome r)], r))"

text \<open>\<^verbatim>\<open>try: m except: handler\<close> with a bare \<open>except\<close>, which catches everything.\<close>

definition try_except :: "'a prog \<Rightarrow> (exn \<Rightarrow> 'a prog) \<Rightarrow> 'a prog" where
  "try_except m handler hist =
     (case m hist of
        (hist', Inl e) \<Rightarrow> handler e hist'
      | (hist', Inr x) \<Rightarrow> (hist', Inr x))"

text \<open>\<^verbatim>\<open>for x in xs: s = body(x, s)\<close>.\<close>

fun for_loop :: "'a list \<Rightarrow> ('a \<Rightarrow> 's \<Rightarrow> 's prog) \<Rightarrow> 's \<Rightarrow> 's prog" where
  "for_loop [] body s = ret s"
| "for_loop (x # xs) body s = bind (body x s) (for_loop xs body)"

text \<open>
  What the claims say about failures, in terms of a run: the code performs no
  recovery when, from any history, an external call that raises is the last call of
  the run and its exception is the result of the run.
\<close>

definition no_recovery :: "history \<Rightarrow> exn + 'a \<Rightarrow> bool" where
  "no_recovery new r \<longleftrightarrow>
     (\<forall>i<length new. \<forall>e. snd (new ! i) = Some e \<longrightarrow> Suc i = length new \<and> r = Inl e)"

definition propagates :: "'a prog \<Rightarrow> bool" where
  "propagates m \<longleftrightarrow>
     (\<forall>hist. \<exists>new. fst (m hist) = hist @ new \<and> no_recovery new (snd (m hist)))"

text \<open>The number of calls of a routine in a history.\<close>

definition calls_of :: "call \<Rightarrow> history \<Rightarrow> nat" where
  "calls_of c hist = length (filter (\<lambda>ev. fst ev = c) hist)"

text \<open>A piece of code calls a routine at most \<open>n\<close> times, in every run, whether the
  run ends with an exception or not.\<close>

definition calls_at_most :: "call \<Rightarrow> nat \<Rightarrow> 'a prog \<Rightarrow> bool" where
  "calls_at_most c n m \<longleftrightarrow>
     (\<forall>hist. \<exists>new. fst (m hist) = hist @ new \<and> calls_of c new \<le> n)"

section \<open>The classification notebook\<close>

text \<open>
  The routines the notebook calls.  \<open>urlopen_read_decode\<close> is
  \<^verbatim>\<open>urllib.request.urlopen(link).read().decode()\<close>; \<open>str_lower\<close> is \<^verbatim>\<open>str.lower\<close>;
  \<open>set_iter\<close> is the order in which Python iterates a set; \<open>real_nmf\<close> is the NAG
  factorization, called with the matrix, \<open>k\<close>, the seed, \<open>errtol\<close> and \<open>maxit\<close>;
  \<open>np_matmul\<close>, \<open>np_subtract\<close>, \<open>np_divide\<close> are NumPy's \<^verbatim>\<open>@\<close>, \<^verbatim>\<open>-\<close> and
  \<^verbatim>\<open>/\<close>, \<open>scipy_norm\<close> is \<^verbatim>\<open>scipy.linalg.norm\<close>, and \<open>pd_set_option\<close> is
  \<^verbatim>\<open>pandas.set_option\<close>, called with the name of an option and its value.
\<close>

record nmf_env =
  urlopen_read_decode :: "history \<Rightarrow> pystr \<Rightarrow> exn + pystr"
  str_lower :: "pystr \<Rightarrow> pystr"
  set_iter :: "pystr set \<Rightarrow> pystr list"
  real_nmf :: "history \<Rightarrow> real list list \<Rightarrow> nat \<Rightarrow> int \<Rightarrow> real \<Rightarrow> nat \<Rightarrow>
    exn + (real list list \<times> real list list)"
  np_matmul :: "real list list \<Rightarrow> real list list \<Rightarrow> exn + real list list"
  np_subtract :: "real list list \<Rightarrow> real list list \<Rightarrow> exn + real list list"
  scipy_norm :: "real list list \<Rightarrow> exn + real"
  np_divide :: "real \<Rightarrow> real \<Rightarrow> real"
  pd_set_option :: "history \<Rightarrow> pystr \<Rightarrow> int \<Rightarrow> exn + unit"

text \<open>What the notebook prints or displays: a string, a float, a list of strings, or a
  table with column labels.\<close>

datatype printed =
    Out_str pystr
  | Out_float real
  | Out_list "pystr list"
  | Out_frame "pystr list" "real list list"

text \<open>
  The variables of the notebook.  \<open>words\<close> is first a set (\<open>nb_wordset\<close>) and from
  the first cleaning cell on a list (\<open>nb_words\<close>); \<open>nb_f2\<close> is the content of
  \<^verbatim>\<open>wordcounts.txt\<close>, line by line; \<open>nb_stdout\<close> is what has been printed.  The
  model covers the cells that compute, write or print; the cells that only display a
  value (the URL file, \<^verbatim>\<open>dicts[0].most_common(20)\<close>, \<^verbatim>\<open>len(words)\<close>, \<^verbatim>\<open>a\<close>,
  the shapes of \<open>w\<close> and \<open>h\<close>) are left out, and so are failures of the file system.
\<close>

record notebook =
  nb_links :: "pystr list"
  nb_n_links :: nat
  nb_dicts :: "(pystr \<times> int) list list"
  nb_titles :: "pystr list list"
  nb_wordset :: "pystr set"
  nb_words :: "pystr list"
  nb_masterdict :: "(pystr \<times> int list) list"
  nb_a :: "real list list"
  nb_f2 :: "pystr list"
  nb_w :: "real list list"
  nb_h :: "real list list"
  nb_resnorm :: real
  nb_display_h :: "printed option"
  nb_stdout :: "printed list"

definition empty_notebook :: notebook where
  "empty_notebook = \<lparr>nb_links = [], nb_n_links = 0, nb_dicts = [], nb_titles = [],
     nb_wordset = {}, nb_words = [], nb_masterdict = [], nb_a = [], nb_f2 = [], nb_w = [],
     nb_h = [], nb_resnorm = 0, nb_display_h = None, nb_stdout = []\<rparr>"

definition py_print :: "printed \<Rightarrow> notebook \<Rightarrow> notebook" where
  "py_print x nb = nb\<lparr>nb_stdout := nb_stdout nb @ [x]\<rparr>"

subsection \<open>Parsing the pages\<close>

text \<open>
  The body of \<^verbatim>\<open>for link in links\<close>: the page is downloaded, lowercased and
  searched for paragraphs; it is downloaded a second time and searched for the title;
  the title is printed and appended to \<open>titles\<close>; the words of the paragraphs are
  counted, the counter is appended to \<open>dicts\<close> and its keys are added to \<open>words\<close>.
\<close>

definition parse_link :: "nmf_env \<Rightarrow> pystr \<Rightarrow> notebook \<Rightarrow> notebook prog" where
  "parse_link env link nb =
     bind (ext (Urlopen link) (\<lambda>hist. urlopen_read_decode env hist link)) (\<lambda>page1.
       let paras = findall_tag (ascii ''p'') (str_lower env page1) in
       bind (ext (Urlopen link) (\<lambda>hist. urlopen_read_decode env hist link)) (\<lambda>page2.
         let title = findall_tag (ascii ''title'') page2;
             nb = py_print (Out_list title) nb;
             nb = nb\<lparr>nb_titles := nb_titles nb @ [title]\<rparr>;
             c = Counter (pagewords paras)
         in ret (nb\<lparr>nb_dicts := nb_dicts nb @ [c],
                      nb_wordset := nb_wordset nb \<union> set (keys c)\<rparr>)))"

definition cell_parse :: "nmf_env \<Rightarrow> pystr list \<Rightarrow> notebook \<Rightarrow> notebook prog" where
  "cell_parse env links nb =
     (let nb = py_print (Out_str (ascii ''Reading urls'')) nb;
          nb = nb\<lparr>nb_links := links, nb_n_links := length links, nb_dicts := [],
                  nb_titles := [], nb_wordset := {}\<rparr>;
          nb = py_print (Out_str (ascii ''Parsing webpages'')) nb
      in for_loop links (parse_link env) nb)"

subsection \<open>Cleaning the words, the data matrix and the table\<close>

definition cell_clean :: "nmf_env \<Rightarrow> notebook \<Rightarrow> notebook" where
  "cell_clean env nb = nb\<lparr>nb_words := clean_words (set_iter env (nb_wordset nb))\<rparr>"

definition cell_count :: "notebook \<Rightarrow> notebook" where
  "cell_count nb =
     py_print (Out_str (str_int (int (length (nb_words nb))) @
       ascii '' distinct words will be used to form the data matrix'')) nb"

text \<open>\<^verbatim>\<open>str(a.shape)\<close>: an array with no row has the shape \<open>(0,)\<close>.\<close>

definition shape_str :: "real list list \<Rightarrow> pystr" where
  "shape_str a =
     (case a of
        [] \<Rightarrow> ascii ''(0,)''
      | row # _ \<Rightarrow> ascii ''('' @ str_int (int (length a)) @ ascii '', '' @
          str_int (int (length row)) @ ascii '')'')"

definition cell_matrix :: "notebook \<Rightarrow> notebook" where
  "cell_matrix nb =
     (let nb = py_print (Out_str (ascii ''Creating data matrix'')) nb;
          nb = nb\<lparr>nb_masterdict := masterdict (nb_words nb) (nb_dicts nb)\<rparr>;
          nb = nb\<lparr>nb_a := data_matrix (nb_words nb) (nb_dicts nb)\<rparr>
      in py_print (Out_str (ascii ''Final data matrix has size:'' @ shape_str (nb_a nb))) nb)"

definition cell_write :: "notebook \<Rightarrow> notebook prog" where
  "cell_write nb =
     (let nb = py_print (Out_str (ascii ''Printing data matrix to file'')) nb in
      bind (lift (write_wordcounts (nb_n_links nb) (nb_words nb) (nb_a nb))) (\<lambda>f2.
        ret (nb\<lparr>nb_f2 := f2\<rparr>)))"

subsection \<open>The factorization and what follows it\<close>

text \<open>\<^verbatim>\<open>m = a.shape[0]; n = a.shape[1]\<close> raises on the array without rows; then
  \<^verbatim>\<open>w, h = real_nmf(a, k=2, seed=5842, errtol=1e-6, maxit=500)\<close>.\<close>

definition cell_nmf :: "nmf_env \<Rightarrow> notebook \<Rightarrow> notebook prog" where
  "cell_nmf env nb =
     bind (lift (case nb_a nb of [] \<Rightarrow> Inl IndexError | row # _ \<Rightarrow> Inr (length row))) (\<lambda>n.
       bind (ext Real_nmf (\<lambda>hist. real_nmf env hist (nb_a nb) 2 5842 (1 / 10 ^ 6) 500))
         (\<lambda>(w, h). ret (nb\<lparr>nb_w := w, nb_h := h\<rparr>)))"

text \<open>\<^verbatim>\<open>resnorm = norm(a-w@h)/norm(a)\<close>, printed.\<close>

definition cell_resnorm :: "nmf_env \<Rightarrow> notebook \<Rightarrow> notebook prog" where
  "cell_resnorm env nb =
     bind (ext Np_matmul (\<lambda>hist. np_matmul env (nb_w nb) (nb_h nb))) (\<lambda>wh.
     bind (ext Np_subtract (\<lambda>hist. np_subtract env (nb_a nb) wh)) (\<lambda>d.
     bind (ext Scipy_norm (\<lambda>hist. scipy_norm env d)) (\<lambda>n1.
     bind (ext Scipy_norm (\<lambda>hist. scipy_norm env (nb_a nb))) (\<lambda>n2.
       let nb = nb\<lparr>nb_resnorm := np_divide env n1 n2\<rparr>;
           nb = py_print (Out_str (ascii ''norm of residual:'')) nb
       in ret (py_print (Out_float (nb_resnorm nb)) nb)))))"

text \<open>\<^verbatim>\<open>xs.index(x)\<close>, and \<^verbatim>\<open>sorted(xs, key=..., reverse=True)\<close> on the list of the
  keys: descending, elements with equal keys in their original order.\<close>

fun py_index :: "'a list \<Rightarrow> 'a \<Rightarrow> exn + nat" where
  "py_index [] x = Inl ValueError"
| "py_index (y # ys) x =
     (if y = x then Inr 0
      else (case py_index ys x of Inl e \<Rightarrow> Inl e | Inr i \<Rightarrow> Inr (Suc i)))"

definition sorted_reverse :: "('k::linorder \<times> 'a) list \<Rightarrow> 'a list" where
  "sorted_reverse keyed = map snd (rev (sort_key fst (rev keyed)))"

text \<open>The cell that lists, for each of the \<open>k = 2\<close> columns of \<open>w\<close>, the ten words
  with the largest entries: \<^verbatim>\<open>sorted(words, key=lambda x, ind=i: w[words.index(x),ind],
  reverse=True)\<close>.\<close>

definition top_words :: "nat \<Rightarrow> notebook \<Rightarrow> notebook prog" where
  "top_words i nb =
     bind (lift (for_each (nb_words nb)
        (\<lambda>x keyed. case py_index (nb_words nb) x of
            Inl e \<Rightarrow> Inl e
          | Inr r \<Rightarrow> (case nd_get (nb_w nb) r i of
              Inl e \<Rightarrow> Inl e
            | Inr key \<Rightarrow> Inr (keyed @ [(key, x)]))) [])) (\<lambda>keyed.
       let tmp = sorted_reverse keyed;
           st = [10] @ ascii ''The most important words in column '' @ str_int (int i + 1) @
                ascii '' of w are:'';
           nb = py_print (Out_str st) nb
       in ret (py_print (Out_list (take 10 tmp)) nb))"

definition cell_top_words :: "notebook \<Rightarrow> notebook prog" where
  "cell_top_words nb = for_loop [0..<2] top_words nb"

text \<open>\<^verbatim>\<open>display_h = pd.DataFrame(h, columns=["link1", ..., "link15"])\<close>; pandas
  raises when \<open>h\<close> does not have 15 columns.  Then
  \<^verbatim>\<open>pd.set_option('precision', 3)\<close>, and the table is displayed.\<close>

definition link_columns :: "pystr list" where
  "link_columns = map (\<lambda>i. ascii ''link'' @ str_int (int i)) [1..<16]"

definition cell_display :: "nmf_env \<Rightarrow> notebook \<Rightarrow> notebook prog" where
  "cell_display env nb =
     bind (ext Pd_DataFrame (\<lambda>hist.
        if list_all (\<lambda>row. length row = length link_columns) (nb_h nb)
        then Inr (Out_frame link_columns (nb_h nb)) else Inl ValueError)) (\<lambda>display_h.
       let nb = nb\<lparr>nb_display_h := Some display_h\<rparr> in
       bind (ext Pd_set_option (\<lambda>hist. pd_set_option env hist (ascii ''precision'') 3)) (\<lambda>u.
         ret nb))"

text \<open>The last cell: \<^verbatim>\<open>category = 0 if h[0,i] > h[1,i] else 1\<close>, and the printed
  line with the title of the article and its category.\<close>

definition category_of :: "real list list \<Rightarrow> nat \<Rightarrow> exn + nat" where
  "category_of h i =
     (case nd_get h 0 i of
        Inl e \<Rightarrow> Inl e
      | Inr h0 \<Rightarrow> (case nd_get h 1 i of
          Inl e \<Rightarrow> Inl e
        | Inr h1 \<Rightarrow> Inr (if h0 > h1 then 0 else 1)))"

definition categorise :: "nat \<times> pystr \<Rightarrow> notebook \<Rightarrow> notebook prog" where
  "categorise il nb =
     (case il of (i, link) \<Rightarrow>
        bind (lift (category_of (nb_h nb) i)) (\<lambda>category.
        bind (lift (py_get (nb_titles nb) i)) (\<lambda>ts.
        bind (lift (py_get ts 0)) (\<lambda>t.
        bind (lift (py_get [ascii '' (Trump)'', ascii '' (Brexit)''] category)) (\<lambda>label.
          let title = [34] @ t @ [34];
              st = ascii ''Article '' @ ljust 78 32 title @ ascii '' is in category '' @
                   str_int (int category) @ label
          in ret (py_print (Out_str st) nb))))))"

definition cell_categories :: "notebook \<Rightarrow> notebook prog" where
  "cell_categories nb = for_loop (enumerate 0 (nb_links nb)) categorise nb"

text \<open>The cells after the factorization, and the whole notebook from the lines of the
  URL file.\<close>

definition after_nmf :: "nmf_env \<Rightarrow> notebook \<Rightarrow> notebook prog" where
  "after_nmf env nb =
     bind (cell_resnorm env nb) (\<lambda>nb.
     bind (cell_top_words nb) (\<lambda>nb.
     bind (cell_display env nb) (\<lambda>nb.
     cell_categories nb)))"

definition nmf_notebook :: "nmf_env \<Rightarrow> pystr list \<Rightarrow> notebook prog" where
  "nmf_notebook env links =
     bind (cell_parse env links empty_notebook) (\<lambda>nb.
     bind (cell_write (cell_matrix (cell_count (cell_clean env nb)))) (\<lambda>nb.
     bind (cell_nmf env nb) (\<lambda>nb.
     after_nmf env nb)))"

text \<open>
  Words used to state the properties of the parsing cell: the tokens that the cell
  extracts from a downloaded page, and the history of a run in which every link of a
  list was downloaded twice without an exception.
\<close>

definition page_words :: "nmf_env \<Rightarrow> pystr \<Rightarrow> pystr list" where
  "page_words env page = pagewords (findall_tag (ascii ''p'') (str_lower env page))"

definition fetched :: "pystr list \<Rightarrow> history" where
  "fetched links = concat (map (\<lambda>link. [(Urlopen link, None), (Urlopen link, None)]) links)"

text \<open>The three arrays of the factorization: the data matrix, the features matrix and
  the coefficients matrix.\<close>

definition factors :: "notebook \<Rightarrow> real list list \<times> real list list \<times> real list list" where
  "factors nb = (nb_a nb, nb_w nb, nb_h nb)"

text \<open>Words used to state the properties of the last cell: article \<open>i\<close> can be
  categorised when \<open>h\<close> has two rows with a column \<open>i\<close> and a title was found for
  it; the line of article \<open>i\<close> names category 0 when \<open>h[0,i] > h[1,i]\<close> and
  category 1 otherwise.\<close>

definition category_ready :: "notebook \<Rightarrow> nat \<Rightarrow> bool" where
  "category_ready nb i \<longleftrightarrow>
     1 < length (nb_h nb) \<and> i < length (nb_h nb ! 0) \<and> i < length (nb_h nb ! 1) \<and>
     i < length (nb_titles nb) \<and> nb_titles nb ! i \<noteq> []"

definition category_line :: "notebook \<Rightarrow> nat \<Rightarrow> printed" where
  "category_line nb i =
     Out_str (ascii ''Article '' @ ljust 78 32 ([34] @ nb_titles nb ! i ! 0 @ [34]) @
       ascii '' is in category '' @
       (if nb_h nb ! 0 ! i > nb_h nb ! 1 ! i then ascii ''0 (Trump)'' else ascii ''1 (Brexit)''))"

section \<open>The implied volatility notebook\<close>

text \<open>
  The NAG routines of this notebook: the random number generator
  (\<open>rand.init_nonrepeat\<close>, \<open>rand.dist_uniform\<close>), the Black-Scholes price
  \<open>specfun.opt_bsm_price\<close>, the root finder \<open>roots.contfn_cntin\<close>, which calls the
  function it is given with the communication object \<open>data\<close>, and
  \<open>specfun.opt_imp_vol\<close>.  The timing of the cells is not modelled.
\<close>

type_synonym bs_data = "string \<rightharpoonup> real"

record 'st iv_env =
  init_nonrepeat :: "history \<Rightarrow> int \<Rightarrow> exn + 'st"
  dist_uniform :: "history \<Rightarrow> nat \<Rightarrow> real \<Rightarrow> real \<Rightarrow> 'st \<Rightarrow> exn + real list"
  opt_bsm_price :: "string \<Rightarrow> real list \<Rightarrow> real \<Rightarrow> real list \<Rightarrow> real \<Rightarrow> real \<Rightarrow> real \<Rightarrow>
    exn + real list list"
  contfn_cntin :: "history \<Rightarrow> real \<Rightarrow> (real \<Rightarrow> bs_data \<Rightarrow> exn + real) \<Rightarrow> real \<Rightarrow> real \<Rightarrow>
    nat \<Rightarrow> bs_data \<Rightarrow> exn + real"
  opt_imp_vol :: "history \<Rightarrow> string \<Rightarrow> real list \<Rightarrow> real list \<Rightarrow> real list \<Rightarrow> real list \<Rightarrow>
    real list \<Rightarrow> int \<Rightarrow> exn + (real list \<times> int list)"

text \<open>\<^verbatim>\<open>d[key]\<close> on a dictionary.\<close>

definition dict_item :: "('k \<rightharpoonup> 'v) \<Rightarrow> 'k \<Rightarrow> exn + 'v" where
  "dict_item d key = (case d key of None \<Rightarrow> Inl KeyError | Some v \<Rightarrow> Inr v)"

text \<open>
  The callback.  Everything inside \<^verbatim>\<open>try\<close>, the look-ups of \<open>k\<close>, \<open>s0\<close>, \<open>t\<close> and
  \<open>r\<close> and the call of \<open>opt_bsm_price\<close>, is covered by the bare \<^verbatim>\<open>except\<close>, which
  sets \<^verbatim>\<open>price = np.zeros((1,1))\<close>; \<^verbatim>\<open>price[0, 0] - data['p']\<close> is outside it.
\<close>

definition black_scholes :: "('st, 'x) iv_env_scheme \<Rightarrow> real \<Rightarrow> bs_data \<Rightarrow> exn + real" where
  "black_scholes env sigma data =
     (let tried =
        (case dict_item data ''k'' of Inl e \<Rightarrow> Inl e | Inr k \<Rightarrow>
         case dict_item data ''s0'' of Inl e \<Rightarrow> Inl e | Inr s0 \<Rightarrow>
         case dict_item data ''t'' of Inl e \<Rightarrow> Inl e | Inr t \<Rightarrow>
         case dict_item data ''r'' of Inl e \<Rightarrow> Inl e | Inr r \<Rightarrow>
           opt_bsm_price env ''C'' [k] s0 [t] sigma r 0);
          price = (case tried of Inl e \<Rightarrow> [[0]] | Inr price \<Rightarrow> price)
      in case nd_get price 0 0 of
           Inl e \<Rightarrow> Inl e
         | Inr p00 \<Rightarrow> (case dict_item data ''p'' of
             Inl e \<Rightarrow> Inl e
           | Inr p \<Rightarrow> Inr (p00 - p)))"

text \<open>
  The body of \<^verbatim>\<open>for i in range(n)\<close>: the five entries of \<open>data\<close> are set from the
  arrays, then the root finder is called inside \<^verbatim>\<open>try\<close>; a negative root and any
  exception each add one to \<open>errorcount\<close>.  The state of the loop is \<open>data\<close> and
  \<open>errorcount\<close>.
\<close>

definition root_finder_step ::
  "('st, 'x) iv_env_scheme \<Rightarrow> real list \<Rightarrow> real list \<Rightarrow> real list \<Rightarrow> real list \<Rightarrow> real list \<Rightarrow>
     nat \<Rightarrow> bs_data \<times> int \<Rightarrow> (bs_data \<times> int) prog" where
  "root_finder_step env p k s0 t r i st =
     (case st of (data, errorcount) \<Rightarrow>
        bind (lift (py_get p i)) (\<lambda>p_i. let data = data(''p'' \<mapsto> p_i) in
        bind (lift (py_get k i)) (\<lambda>k_i. let data = data(''k'' \<mapsto> k_i) in
        bind (lift (py_get s0 i)) (\<lambda>s0_i. let data = data(''s0'' \<mapsto> s0_i) in
        bind (lift (py_get t i)) (\<lambda>t_i. let data = data(''t'' \<mapsto> t_i) in
        bind (lift (py_get r i)) (\<lambda>r_i. let data = data(''r'' \<mapsto> r_i) in
          try_except
            (bind (ext Contfn_cntin (\<lambda>hist.
                 contfn_cntin env hist (15 / 100) (black_scholes env) (1 / 10 ^ 14) 0 500 data))
               (\<lambda>sigma. ret (data, if sigma < 0 then errorcount + 1 else errorcount)))
            (\<lambda>e. ret (data, errorcount + 1))))))))"

definition root_finder_cell ::
  "('st, 'x) iv_env_scheme \<Rightarrow> nat \<Rightarrow> real list \<Rightarrow> real list \<Rightarrow> real list \<Rightarrow> real list \<Rightarrow>
     real list \<Rightarrow> (bs_data \<times> int) prog" where
  "root_finder_cell env n p k s0 t r =
     for_loop [0..<n] (root_finder_step env p k s0 t r) (Map.empty, 0)"

text \<open>A cell that calls \<^verbatim>\<open>specfun.opt_imp_vol('C', p, k, s0, t, r, mode=mode)\<close> and
  reports \<^verbatim>\<open>np.count_nonzero(ivalid)\<close>.\<close>

definition imp_vol_cell ::
  "('st, 'x) iv_env_scheme \<Rightarrow> int \<Rightarrow> real list \<Rightarrow> real list \<Rightarrow> real list \<Rightarrow> real list \<Rightarrow>
     real list \<Rightarrow> (real list \<times> int list \<times> nat) prog" where
  "imp_vol_cell env mode p k s0 t r =
     bind (ext (Opt_imp_vol mode) (\<lambda>hist. opt_imp_vol env hist ''C'' p k s0 t r mode))
       (\<lambda>(sigma, ivalid). ret (sigma, ivalid, length (filter (\<lambda>v. v \<noteq> 0) ivalid)))"

text \<open>The cell that draws the input data: \<^verbatim>\<open>statecomm = rand.init_nonrepeat(1)\<close> and
  five calls of \<^verbatim>\<open>rand.dist_uniform\<close>, for \<open>p\<close>, \<open>k\<close>, \<open>s0\<close>, \<open>t\<close> and \<open>r\<close>.\<close>

definition draw_cell ::
  "('st, 'x) iv_env_scheme \<Rightarrow> nat \<Rightarrow>
     (real list \<times> real list \<times> real list \<times> real list \<times> real list) prog" where
  "draw_cell env n =
     bind (ext Rand_init_nonrepeat (\<lambda>hist. init_nonrepeat env hist 1)) (\<lambda>statecomm.
     bind (ext Rand_dist_uniform (\<lambda>hist. dist_uniform env hist n (39 / 10) (58 / 10) statecomm)) (\<lambda>p.
     bind (ext Rand_dist_uniform (\<lambda>hist. dist_uniform env hist n (2715 / 10) 272 statecomm)) (\<lambda>k.
     bind (ext Rand_dist_uniform (\<lambda>hist. dist_uniform env hist n 259 271 statecomm)) (\<lambda>s0.
     bind (ext Rand_dist_uniform (\<lambda>hist. dist_uniform env hist n (16 / 1000) (17 / 1000) statecomm)) (\<lambda>t.
     bind (ext Rand_dist_uniform (\<lambda>hist. dist_uniform env hist n (17 / 1000) (18 / 1000) statecomm)) (\<lambda>r.
       ret (p, k, s0, t, r)))))))"

text \<open>The notebook: the input data are drawn, the root finder is run on every data
  point, and \<open>opt_imp_vol\<close> is called with mode 2, mode 1 and mode 0.  The result is
  the failure count of each of the four computations.\<close>

definition imp_vol_notebook :: "('st, 'x) iv_env_scheme \<Rightarrow> (int \<times> nat \<times> nat \<times> nat) prog" where
  "imp_vol_notebook env =
     (let n = 10000 in
      bind (draw_cell env n) (\<lambda>(p, k, s0, t, r).
      bind (root_finder_cell env n p k s0 t r) (\<lambda>(data, errorcount).
      bind (imp_vol_cell env 2 p k s0 t r) (\<lambda>(sigma, ivalid, failures2).
      bind (imp_vol_cell env 1 p k s0 t r) (\<lambda>(sigma, ivalid, failures1).
      bind (imp_vol_cell env 0 p k s0 t r) (\<lambda>(sigma, ivalid, failures0).
        ret (errorcount, failures2, failures1, failures0)))))))"

section \<open>The cone programming notebook\<close>

text \<open>
  The notebook is a sequence of calls of the NAG optimization suite on one problem
  handle.  The handle and the I/O manager are objects of the library; the setters
  change the handle in place and their results are not used.
\<close>

record socp_result =
  result_x :: "real list"
  result_rinfo :: "real list"

record ('hd, 'io) socp_env =
  handle_init :: "history \<Rightarrow> nat \<Rightarrow> exn + 'hd"
  handle_set_linobj :: "history \<Rightarrow> 'hd \<Rightarrow> real list \<Rightarrow> exn + unit"
  handle_set_simplebounds :: "history \<Rightarrow> 'hd \<Rightarrow> real list \<Rightarrow> real list \<Rightarrow> exn + unit"
  handle_set_linconstr :: "history \<Rightarrow> 'hd \<Rightarrow> real list \<Rightarrow> real list \<Rightarrow> nat list \<Rightarrow> nat list \<Rightarrow>
    real list \<Rightarrow> exn + unit"
  handle_set_group :: "history \<Rightarrow> 'hd \<Rightarrow> string \<Rightarrow> nat list \<Rightarrow> nat \<Rightarrow> exn + unit"
  handle_opt_set :: "history \<Rightarrow> 'hd \<Rightarrow> string \<Rightarrow> exn + unit"
  file_obj_manager :: "history \<Rightarrow> bool \<Rightarrow> exn + 'io"
  handle_solve_socp_ipm :: "history \<Rightarrow> 'hd \<Rightarrow> 'io \<Rightarrow> exn + socp_result"
  handle_free :: "history \<Rightarrow> 'hd \<Rightarrow> exn + unit"

definition socp_notebook :: "('hd, 'io, 'x) socp_env_scheme \<Rightarrow> (real list \<times> real) prog" where
  "socp_notebook env =
     (let n = 3 in
      bind (ext Handle_init (\<lambda>hist. handle_init env hist n)) (\<lambda>handle.
      bind (ext Handle_set_linobj (\<lambda>hist. handle_set_linobj env hist handle [10, 20, 1])) (\<lambda>_.
      bind (ext Handle_set_simplebounds (\<lambda>hist.
          handle_set_simplebounds env hist handle [- 2, - 2, - (10 ^ 20)] [2, 2, 10 ^ 20])) (\<lambda>_.
      bind (ext Handle_set_linconstr (\<lambda>hist.
          handle_set_linconstr env hist handle [- (10 ^ 20), 1] [15 / 10, 10 ^ 20]
            [1, 1, 1, 2, 2, 2] [1, 2, 3, 1, 2, 3]
            [- (1 / 10), - (1 / 10), 1, - (6 / 100), 1, 1])) (\<lambda>_.
      bind (ext Handle_set_group (\<lambda>hist. handle_set_group env hist handle ''Q'' [3, 1, 2] 0)) (\<lambda>_.
      bind (for_loop [''Print Options = NO'', ''Print Level = 1'']
          (\<lambda>option u. ext Handle_opt_set (\<lambda>hist. handle_opt_set env hist handle option)) ()) (\<lambda>_.
      bind (ext FileObjManager (\<lambda>hist. file_obj_manager env hist False)) (\<lambda>iom.
      bind (ext Handle_solve_socp_ipm (\<lambda>hist. handle_solve_socp_ipm env hist handle iom)) (\<lambda>result.
      bind (lift (py_get (result_rinfo result) 0)) (\<lambda>objective.
      bind (ext Handle_free (\<lambda>hist. handle_free env hist handle)) (\<lambda>_.
        ret (result_x result, objective))))))))))))"

section \<open>A small world for the examples\<close>

text \<open>
  Two links.  The first download of a link returns a page with one paragraph, the
  second one a page with a title; lowercasing is that of ASCII letters; the set of
  words is iterated in a fixed order.  The numerical routines return fixed values.
\<close>

definition ascii_lower :: "pystr \<Rightarrow> pystr" where
  "ascii_lower s = map (\<lambda>c. if 65 \<le> c \<and> c \<le> 90 then c + 32 else c) s"

definition demo_links :: "pystr list" where
  "demo_links = [ascii ''u1'', ascii ''u2'']"

definition demo_page :: "pystr \<Rightarrow> pystr" where
  "demo_page link =
     (if link = ascii ''u1'' then ascii ''<p>Brexit deal: no-deal Brexit</p>''
      else ascii ''<p>Trump says deal</p>'')"

definition demo_env :: nmf_env where
  "demo_env = \<lparr>
     urlopen_read_decode = (\<lambda>hist link.
       if even (length hist) then Inr (demo_page link)
       else Inr (ascii ''<title>'' @ link @ ascii ''</title>'')),
     str_lower = ascii_lower,
     set_iter = (\<lambda>S. [ascii ''trump'', ascii ''brexit'', ascii ''says'', ascii ''deal'', ascii ''no'']),
     real_nmf = (\<lambda>hist a k seed errtol maxit.
       Inr (map (\<lambda>row. [1, 2]) a, [replicate 15 2, 1 # replicate 14 2])),
     np_matmul = (\<lambda>w h. Inr [replicate 15 1]),
     np_subtract = (\<lambda>a b. Inr [replicate 15 0]),
     scipy_norm = (\<lambda>a. Inr 1),
     np_divide = (\<lambda>x y. x / y),
     pd_set_option = (\<lambda>hist name v. Inr ())\<rparr>"

text \<open>A notebook in which fifteen pages have been parsed and one word has been kept.\<close>

definition demo_parsed :: notebook where
  "demo_parsed = empty_notebook\<lparr>
     nb_links := replicate 15 (ascii ''u''), nb_n_links := 15,
     nb_titles := replicate 15 [ascii ''T''], nb_words := [ascii ''deal''],
     nb_a := [replicate 15 1]\<rparr>"

text \<open>A notebook after the factorization of three pages: in the first column of \<open>h\<close>
  the first coefficient is the larger one, in the second the two are equal, in the
  third the second is the larger one.\<close>

definition demo_factored :: notebook where
  "demo_factored = empty_notebook\<lparr>
     nb_links := [ascii ''u1'', ascii ''u2'', ascii ''u3''], nb_n_links := 3,
     nb_titles := [[ascii ''A''], [ascii ''B''], [ascii ''C'']],
     nb_h := [[3, 1, 2], [1, 1, 5]]\<rparr>"

text \<open>
  A world for the implied volatility notebook.  The price routine fails on a spot
  price of zero and otherwise returns the spot price as the price; the root finder
  evaluates the function once at its starting point, returns the starting point when
  the value is zero and \<open>-1\<close> when it is negative, and fails otherwise.
\<close>

definition demo_iv_env :: "unit iv_env" where
  "demo_iv_env = \<lparr>
     init_nonrepeat = (\<lambda>hist seed. Inr ()),
     dist_uniform = (\<lambda>hist n lo hi statecomm. Inr (replicate n lo)),
     opt_bsm_price = (\<lambda>calput k s0 t sigma r q.
       if s0 = 0 then Inl (LibraryError 1) else Inr [[s0]]),
     contfn_cntin = (\<lambda>hist x f eps eta nfmax data.
       case f x data of
         Inl e \<Rightarrow> Inl e
       | Inr v \<Rightarrow> if v = 0 then Inr x else if v < 0 then Inr (- 1) else Inl (LibraryError 7)),
     opt_imp_vol = (\<lambda>hist calput p k s0 t r mode.
       Inr (replicate (length p) (2 / 10), replicate (length p) 0))\<rparr>"

definition demo_data :: "real \<Rightarrow> bs_data" where
  "demo_data spot = [''p'' \<mapsto> 5, ''k'' \<mapsto> 272, ''s0'' \<mapsto> spot, ''t'' \<mapsto> 1 / 60, ''r'' \<mapsto> 1 / 50]"

text \<open>A world for the cone programming notebook in which every routine succeeds, and
  one in which setting the objective fails.\<close>

definition demo_socp_env :: "(unit, unit) socp_env" where
  "demo_socp_env = \<lparr>
     handle_init = (\<lambda>hist nvar. Inr ()),
     handle_set_linobj = (\<lambda>hist handle cvec. Inr ()),
     handle_set_simplebounds = (\<lambda>hist handle bl bu. Inr ()),
     handle_set_linconstr = (\<lambda>hist handle bl bu irowb icolb b. Inr ()),
     handle_set_group = (\<lambda>hist handle gtype group idgroup. Inr ()),
     handle_opt_set = (\<lambda>hist handle option. Inr ()),
     file_obj_manager = (\<lambda>hist locus. Inr ()),
     handle_solve_socp_ipm = (\<lambda>hist handle iom.
       Inr \<lparr>result_x = [- 1, 0, 1], result_rinfo = [- 19]\<rparr>),
     handle_free = (\<lambda>hist handle. Inr ())\<rparr>"

definition failing_socp_env :: "(unit, unit) socp_env" where
  "failing_socp_env =
     demo_socp_env\<lparr>handle_set_linobj := \<lambda>hist handle cvec. Inl (LibraryError 3)\<rparr>"

text \<open>A web in which the second download fails.\<close>

definition failing_web_env :: nmf_env where
  "failing_web_env = demo_env\<lparr>urlopen_read_decode := \<lambda>hist link.
     if length hist = 1 then Inl (LibraryError 404) else Inr (demo_page link)\<rparr>"

section \<open>Properties of the word list\<close>

lemma fold_drop_leading:
  "fold drop_leading ps ws = [word \<leftarrow> ws. list_all (\<lambda>p. \<not> startswith word p) ps]"
proof (induction ps arbitrary: ws)
  case Nil
  then show ?case by simp
next
  case (Cons p ps)
  have "fold drop_leading (p # ps) ws = fold drop_leading ps (drop_leading p ws)"
    by simp
  also have "\<dots> = [word \<leftarrow> drop_leading p ws. list_all (\<lambda>p. \<not> startswith word p) ps]"
    by (rule Cons.IH)
  also have "\<dots> = [word \<leftarrow> ws. list_all (\<lambda>p. \<not> startswith word p) (p # ps)]"
    by (simp add: drop_leading_def)
  finally show ?case .
qed

lemma leading_chars_iff:
  "list_all (\<lambda>p. \<not> startswith word p) leading_chars \<longleftrightarrow> \<not> starts_with_pound_or_digit word"
proof (cases word)
  case Nil
  then show ?thesis
    by (simp add: leading_chars_def startswith_def starts_with_pound_or_digit_def ascii_def)
next
  case (Cons c cs)
  then show ?thesis
    by (simp add: leading_chars_def startswith_def starts_with_pound_or_digit_def ascii_def)
      arith
qed

lemma clean_words_filter: "clean_words ws = filter kept_word ws"
proof -
  have "clean_words ws =
      [word \<leftarrow> ws. word \<notin> set stopwords \<and> 4 \<le> length word \<and> \<not> starts_with_pound_or_digit word]"
    by (simp add: clean_words_def fold_drop_leading drop_short_def drop_stopwords_def
        leading_chars_iff not_less conj_assoc)
  also have "\<dots> = filter kept_word ws"
    by (rule filter_cong) (simp_all add: kept_word_def)
  finally show ?thesis .
qed

section \<open>Properties of the tokens\<close>


lemma maketrans_replicate:
  "fold (\<lambda>(c, d) m. m(c \<mapsto> d)) (zip xs (replicate (length xs) v)) m0 c
     = (if c \<in> set xs then Some v else m0 c)"
  by (induction xs arbitrary: m0) auto

lemma trans_apply: "trans c = (if c \<in> set punctuation then Some 32 else None)"
  by (simp add: trans_def maketrans_def maketrans_replicate)

lemma translate_trans:
  "translate trans s = map (\<lambda>c. if c \<in> set punctuation then 32 else c) s"
  by (simp add: translate_def trans_apply)

lemma pagewords_fold:
  "fold (\<lambda>para pw. pw @ f para) paras acc = acc @ concat (map f paras)"
  by (induction paras arbitrary: acc) simp_all

lemma pagewords_concat:
  "pagewords paras = concat (map (\<lambda>para. py_split (translate trans para)) paras)"
  by (simp add: pagewords_def pagewords_fold)

lemma split_from_sublist:
  "tok \<in> set (split_from cur s) \<Longrightarrow> sublist tok (cur @ s)"
proof (induction s arbitrary: cur)
  case Nil
  then show ?case by (simp split: if_splits)
next
  case (Cons c cs)
  show ?case
  proof (cases "py_isspace c")
    case True
    with Cons.prems have "tok = cur \<or> tok \<in> set (split_from [] cs)"
      by (simp split: if_splits)
    then show ?thesis
    proof
      assume "tok = cur"
      then show ?thesis by simp
    next
      assume "tok \<in> set (split_from [] cs)"
      then have "sublist tok cs" using Cons.IH [of "[]"] by simp
      then obtain ps ss where "cs = ps @ tok @ ss" by (auto simp: sublist_def)
      then have "cur @ c # cs = (cur @ [c] @ ps) @ tok @ ss" by simp
      then show ?thesis unfolding sublist_def by blast
    qed
  next
    case False
    with Cons.prems have "tok \<in> set (split_from (cur @ [c]) cs)" by simp
    from Cons.IH [OF this] show ?thesis by simp
  qed
qed

lemma split_from_tokens:
  "tok \<in> set (split_from cur s) \<Longrightarrow> \<forall>c\<in>set cur. \<not> py_isspace c \<Longrightarrow>
     tok \<noteq> [] \<and> (\<forall>c\<in>set tok. \<not> py_isspace c)"
proof (induction s arbitrary: cur)
  case Nil
  then show ?case by (simp split: if_splits)
next
  case (Cons c cs)
  show ?case
  proof (cases "py_isspace c")
    case True
    with Cons.prems(1) have "(tok = cur \<and> cur \<noteq> []) \<or> tok \<in> set (split_from [] cs)"
      by (simp split: if_splits)
    then show ?thesis
    proof
      assume "tok = cur \<and> cur \<noteq> []"
      with Cons.prems(2) show ?thesis by simp
    next
      assume "tok \<in> set (split_from [] cs)"
      then show ?thesis using Cons.IH [of "[]"] by simp
    qed
  next
    case False
    with Cons.prems(1) have "tok \<in> set (split_from (cur @ [c]) cs)" by simp
    moreover from False Cons.prems(2) have "\<forall>c\<in>set (cur @ [c]). \<not> py_isspace c" by simp
    ultimately show ?thesis by (rule Cons.IH)
  qed
qed

lemma concat_split_from:
  "concat (split_from cur s) = cur @ filter (\<lambda>c. \<not> py_isspace c) s"
  by (induction s arbitrary: cur) auto

lemma py_split_sublist: "tok \<in> set (py_split s) \<Longrightarrow> sublist tok s"
  using split_from_sublist [of tok "[]" s] by (simp add: py_split_def)

lemma py_split_tokens:
  "tok \<in> set (py_split s) \<Longrightarrow> tok \<noteq> [] \<and> (\<forall>c\<in>set tok. \<not> py_isspace c)"
  using split_from_tokens [of tok "[]" s] by (simp add: py_split_def)

lemma concat_py_split: "concat (py_split s) = filter (\<lambda>c. \<not> py_isspace c) s"
  by (simp add: py_split_def concat_split_from)

lemma token_of_translated:
  assumes "tok \<in> set (py_split (translate trans para))"
  shows "sublist tok para \<and> tok \<noteq> [] \<and> (\<forall>c\<in>set tok. c \<notin> set punctuation \<and> \<not> py_isspace c)"
proof -
  let ?f = "\<lambda>c. if c \<in> set punctuation then 32 else c"
  from assms have nosp: "tok \<noteq> []" "\<forall>c\<in>set tok. \<not> py_isspace c"
    using py_split_tokens by blast+
  from assms have "sublist tok (map ?f para)"
    using py_split_sublist by (simp add: translate_trans)
  then obtain ps ss where eq: "map ?f para = ps @ tok @ ss" by (auto simp: sublist_def)
  define tok' where "tok' = take (length tok) (drop (length ps) para)"
  have "map ?f tok' = take (length tok) (drop (length ps) (map ?f para))"
    by (simp add: tok'_def take_map drop_map)
  also have "\<dots> = tok" by (simp add: eq)
  finally have tok': "map ?f tok' = tok" .
  have "sublist tok' (drop (length ps) para)" unfolding tok'_def by (rule sublist_take)
  then have para: "sublist tok' para"
    using sublist_drop sublist_order.order.trans by blast
  have sp: "py_isspace 32" by (simp add: py_isspace_def)
  have "\<forall>c\<in>set tok'. c \<notin> set punctuation"
  proof
    fix c assume c: "c \<in> set tok'"
    show "c \<notin> set punctuation"
    proof
      assume "c \<in> set punctuation"
      then have "?f c = 32" by simp
      moreover from c have "?f c \<in> ?f ` set tok'" by (rule imageI)
      moreover have "set tok = ?f ` set tok'" unfolding tok' [symmetric] by simp
      ultimately have "32 \<in> set tok" by (simp only:)
      with nosp sp show False by blast
    qed
  qed
  then have "map ?f tok' = tok'" by (simp add: map_idI)
  with tok' have "tok = tok'" by simp
  with para nosp \<open>\<forall>c\<in>set tok'. c \<notin> set punctuation\<close> show ?thesis by simp
qed

lemma findall_tag_sublist: "g \<in> set (findall_tag t s) \<Longrightarrow> sublist g s"
proof (induction t s rule: findall_tag.induct)
  case (1 t)
  then show ?case by simp
next
  case (2 t c cs)
  let ?opening = "60 # t @ [62]" and ?closing = "[60, 47] @ t @ [62]"
  show ?case
  proof (cases "prefix ?opening (c # cs)")
    case False
    then have "findall_tag t (c # cs) = findall_tag t cs"
      by (simp only: findall_tag.simps if_False)
    with "2.IH"(3) [OF False] "2.prems" have "sublist g cs" by simp
    then show ?thesis by (simp add: sublist_Cons_right)
  next
    case True
    show ?thesis
    proof (cases "lazy_group ?closing (drop (length ?opening) (c # cs))")
      case None
      with True have "findall_tag t (c # cs) = findall_tag t cs"
        by (simp only: findall_tag.simps if_True option.case)
      with "2.IH"(1) [OF True None] "2.prems" have "sublist g cs" by simp
      then show ?thesis by (simp add: sublist_Cons_right)
    next
      case (Some p)
      obtain g' rest where p: "p = (g', rest)" by (cases p)
      from Some p have d: "drop (length ?opening) (c # cs) = g' @ ?closing @ rest"
        using lazy_group_decomp by blast
      have "c # cs = take (length ?opening) (c # cs) @ drop (length ?opening) (c # cs)"
        by simp
      with d have whole: "c # cs = (take (length ?opening) (c # cs)) @ g' @ (?closing @ rest)"
        by simp
      from True Some p have "findall_tag t (c # cs) = g' # findall_tag t rest"
        by (simp only: findall_tag.simps if_True option.case prod.case)
      with "2.prems" have "g = g' \<or> g \<in> set (findall_tag t rest)" by simp
      then show ?thesis
      proof
        assume "g = g'"
        with whole show ?thesis unfolding sublist_def by blast
      next
        assume "g \<in> set (findall_tag t rest)"
        with "2.IH"(2) [OF True Some p [symmetric]] have "sublist g rest" by simp
        then obtain ps ss where "rest = ps @ g @ ss" by (auto simp: sublist_def)
        with whole have "c # cs = (take (length ?opening) (c # cs) @ g' @ ?closing @ ps) @ g @ ss"
          by simp
        then show ?thesis unfolding sublist_def by blast
      qed
    qed
  qed
qed

section \<open>Properties of the search for tagged text\<close>

text \<open>
  What \<open>findall_tag\<close> returns, in terms of the string alone.  A match starts at a
  position where the opening tag stands, followed by a group without a newline and by
  the closing tag; the group of a match is the shortest one.  Positions at which no
  match starts are skipped, the first match gives the first group, and the search
  goes on behind its closing tag.
\<close>

lemma lazy_group_shortest:
  "lazy_group closing s = Some (g, rest) \<Longrightarrow> k < length g \<Longrightarrow> \<not> prefix closing (drop k s)"
proof (induction s arbitrary: g rest k)
  case Nil
  then show ?case by (simp split: if_splits)
next
  case (Cons c cs)
  show ?case
  proof (cases "prefix closing (c # cs)")
    case True
    with Cons.prems show ?thesis by simp
  next
    case False
    with Cons.prems(1) obtain g' where
      g': "lazy_group closing cs = Some (g', rest)" "g = c # g'"
      by (auto split: if_splits option.splits)
    show ?thesis
    proof (cases k)
      case 0
      with False show ?thesis by simp
    next
      case (Suc k')
      with Cons.prems(2) g'(2) have "k' < length g'" by simp
      from Cons.IH [OF g'(1) this] show ?thesis by (simp add: Suc)
    qed
  qed
qed

lemma lazy_group_found:
  assumes "closing \<noteq> []" "10 \<notin> set g" "\<forall>k<length g. \<not> prefix closing (drop k (g @ closing))"
  shows "lazy_group closing (g @ closing @ rest) = Some (g, rest)"
  using assms(2,3)
proof (induction g)
  case Nil
  from assms(1) obtain c cs where c: "closing = c # cs" by (cases closing) auto
  then have "lazy_group closing (closing @ rest) = Some ([], drop (length closing) (closing @ rest))"
    by simp
  then show ?case by simp
next
  case (Cons c g)
  from Cons.prems(2) [rule_format, of 0] have "\<not> prefix closing (c # g @ closing)" by simp
  then have np: "\<not> prefix closing (c # g @ closing @ rest)"
    by (metis append.assoc append_Cons prefix_length_prefix length_append le_add2 prefixI)
  have "\<forall>k<length g. \<not> prefix closing (drop k (g @ closing))"
  proof (intro allI impI)
    fix k assume "k < length g"
    then have "Suc k < length (c # g)" by simp
    from Cons.prems(2) [rule_format, OF this] show "\<not> prefix closing (drop k (g @ closing))"
      by simp
  qed
  with Cons.IH Cons.prems(1) have "lazy_group closing (g @ closing @ rest) = Some (g, rest)"
    by simp
  with np Cons.prems(1) show ?case by simp
qed

lemma lazy_group_some:
  assumes "s = g @ closing @ rest" "10 \<notin> set g"
  shows "lazy_group closing s \<noteq> None"
  using assms
proof (induction g arbitrary: s)
  case Nil
  then have s: "s = closing @ rest" by simp
  show ?case
  proof (cases s)
    case Nil
    with s show ?thesis by simp
  next
    case (Cons a list)
    from s have "prefix closing s" by simp
    then have "lazy_group closing (a # list) = Some ([], drop (length closing) (a # list))"
      unfolding Cons by simp
    then show ?thesis by (simp add: Cons)
  qed
next
  case (Cons c g)
  from Cons.prems have s: "s = c # (g @ closing @ rest)" and c: "c \<noteq> 10" and g: "10 \<notin> set g"
    by auto
  from Cons.IH [OF refl g] obtain p where "lazy_group closing (g @ closing @ rest) = Some p"
    by auto
  then show ?case by (cases p) (simp add: s c)
qed


lemma findall_tag_skip:
  assumes "\<not> (\<exists>g rest. c # cs = (60 # t @ [62]) @ g @ ([60, 47] @ t @ [62]) @ rest \<and> 10 \<notin> set g)"
  shows "findall_tag t (c # cs) = findall_tag t cs"
proof (cases "prefix (60 # t @ [62]) (c # cs)")
  case False
  then show ?thesis by (simp only: findall_tag.simps if_False)
next
  case True
  let ?opening = "60 # t @ [62]" and ?closing = "[60, 47] @ t @ [62]"
  from True have whole: "c # cs = ?opening @ drop (length ?opening) (c # cs)"
    by (metis append_eq_conv_conj prefix_def)
  have "lazy_group ?closing (drop (length ?opening) (c # cs)) = None"
  proof (rule ccontr)
    assume "lazy_group ?closing (drop (length ?opening) (c # cs)) \<noteq> None"
    then obtain g rest where
      "lazy_group ?closing (drop (length ?opening) (c # cs)) = Some (g, rest)" by auto
    from lazy_group_decomp [OF this]
    have "drop (length ?opening) (c # cs) = g @ ?closing @ rest" "10 \<notin> set g" by simp_all
    with whole have "c # cs = ?opening @ g @ ?closing @ rest \<and> 10 \<notin> set g" by metis
    with assms show False by blast
  qed
  with True show ?thesis by (simp only: findall_tag.simps if_True option.case)
qed

lemma findall_tag_none:
  assumes "\<forall>k<length s. \<not> (\<exists>g rest.
      drop k s = (60 # t @ [62]) @ g @ ([60, 47] @ t @ [62]) @ rest \<and> 10 \<notin> set g)"
  shows "findall_tag t s = []"
  using assms
proof (induction s)
  case Nil
  show ?case by simp
next
  case (Cons c cs)
  from Cons.prems [rule_format, of 0]
  have "findall_tag t (c # cs) = findall_tag t cs" by (intro findall_tag_skip) simp
  moreover have "findall_tag t cs = []"
  proof (rule Cons.IH, intro allI impI)
    fix k assume "k < length cs"
    then have "Suc k < length (c # cs)" by simp
    from Cons.prems [rule_format, OF this]
    show "\<not> (\<exists>g rest. drop k cs = (60 # t @ [62]) @ g @ ([60, 47] @ t @ [62]) @ rest \<and>
        10 \<notin> set g)" by simp
  qed
  ultimately show ?case by simp
qed

lemma findall_tag_first:
  assumes "10 \<notin> set g"
    and "\<forall>k<length g. \<not> prefix ([60, 47] @ t @ [62]) (drop k (g @ [60, 47] @ t @ [62]))"
    and "\<forall>k<length pre. \<not> (\<exists>g' rest'.
      drop k (pre @ (60 # t @ [62]) @ g @ ([60, 47] @ t @ [62]) @ rest)
        = (60 # t @ [62]) @ g' @ ([60, 47] @ t @ [62]) @ rest' \<and> 10 \<notin> set g')"
  shows "findall_tag t (pre @ (60 # t @ [62]) @ g @ ([60, 47] @ t @ [62]) @ rest)
    = g # findall_tag t rest"
  using assms(3)
proof (induction pre)
  case Nil
  let ?opening = "60 # t @ [62]" and ?closing = "[60, 47] @ t @ [62]"
  have lg: "lazy_group ?closing (g @ ?closing @ rest) = Some (g, rest)"
    using assms(1,2) by (intro lazy_group_found) simp_all
  have p: "prefix ?opening (60 # (t @ [62]) @ g @ ?closing @ rest)" by simp
  have d: "drop (length ?opening) (60 # (t @ [62]) @ g @ ?closing @ rest) = g @ ?closing @ rest"
    by simp
  have "findall_tag t (60 # (t @ [62]) @ g @ ?closing @ rest) = g # findall_tag t rest"
    by (simp only: findall_tag.simps p if_True d lg option.case prod.case)
  then show ?case by simp
next
  case (Cons c pre)
  let ?s = "pre @ (60 # t @ [62]) @ g @ ([60, 47] @ t @ [62]) @ rest"
  from Cons.prems [rule_format, of 0]
  have "findall_tag t (c # ?s) = findall_tag t ?s" by (intro findall_tag_skip) simp
  moreover have "findall_tag t ?s = g # findall_tag t rest"
  proof (rule Cons.IH, intro allI impI)
    fix k assume "k < length pre"
    then have "Suc k < length (c # pre)" by simp
    from Cons.prems [rule_format, OF this]
    show "\<not> (\<exists>g' rest'. drop k ?s = (60 # t @ [62]) @ g' @ ([60, 47] @ t @ [62]) @ rest' \<and>
        10 \<notin> set g')" by simp
  qed
  ultimately show ?case by simp
qed

lemma findall_tag_element:
  "g \<in> set (findall_tag t s) \<Longrightarrow>
     (\<exists>pre rest. s = pre @ (60 # t @ [62]) @ g @ ([60, 47] @ t @ [62]) @ rest) \<and>
     10 \<notin> set g \<and>
     (\<forall>k<length g. \<not> prefix ([60, 47] @ t @ [62]) (drop k (g @ [60, 47] @ t @ [62])))"
proof (induction t s rule: findall_tag.induct)
  case (1 t)
  then show ?case by simp
next
  case (2 t c cs)
  let ?opening = "60 # t @ [62]" and ?closing = "[60, 47] @ t @ [62]"
  let ?P = "\<lambda>s. (\<exists>pre rest. s = pre @ ?opening @ g @ ?closing @ rest) \<and>
     10 \<notin> set g \<and> (\<forall>k<length g. \<not> prefix ?closing (drop k (g @ ?closing)))"
  have step: "?P (c # cs)" if "?P cs"
  proof -
    from that obtain pre rest where "cs = pre @ ?opening @ g @ ?closing @ rest" by blast
    then have "c # cs = (c # pre) @ ?opening @ g @ ?closing @ rest" by simp
    with that show ?thesis by blast
  qed
  show ?case
  proof (cases "prefix ?opening (c # cs)")
    case False
    then have "findall_tag t (c # cs) = findall_tag t cs"
      by (simp only: findall_tag.simps if_False)
    with "2.IH"(3) [OF False] "2.prems" have "?P cs" by simp
    then show ?thesis by (rule step)
  next
    case True
    show ?thesis
    proof (cases "lazy_group ?closing (drop (length ?opening) (c # cs))")
      case None
      with True have "findall_tag t (c # cs) = findall_tag t cs"
        by (simp only: findall_tag.simps if_True option.case)
      with "2.IH"(1) [OF True None] "2.prems" have "?P cs" by simp
      then show ?thesis by (rule step)
    next
      case (Some p)
      obtain g' rest where p: "p = (g', rest)" by (cases p)
      from Some p have lg: "lazy_group ?closing (drop (length ?opening) (c # cs)) = Some (g', rest)"
        by simp
      from lazy_group_decomp [OF lg]
      have d: "drop (length ?opening) (c # cs) = g' @ ?closing @ rest" and nl: "10 \<notin> set g'"
        by simp_all
      from True have "c # cs = ?opening @ drop (length ?opening) (c # cs)"
        by (metis append_eq_conv_conj prefix_def)
      with d have whole: "c # cs = [] @ ?opening @ g' @ ?closing @ rest" by simp
      from True Some p have "findall_tag t (c # cs) = g' # findall_tag t rest"
        by (simp only: findall_tag.simps if_True option.case prod.case)
      with "2.prems" have "g = g' \<or> g \<in> set (findall_tag t rest)" by simp
      then show ?thesis
      proof
        assume eq: "g = g'"
        have "\<not> prefix ?closing (drop k (g' @ ?closing))" if "k < length g'" for k
        proof
          assume pr: "prefix ?closing (drop k (g' @ ?closing))"
          from that have "drop k (g' @ ?closing @ rest) = drop k (g' @ ?closing) @ rest"
            by simp
          with pr have yes: "prefix ?closing (drop k (g' @ ?closing @ rest))"
            by (metis prefix_prefix)
          have no: "\<not> prefix ?closing (drop k (g' @ ?closing @ rest))"
            using lazy_group_shortest [OF lg that] unfolding d .
          from no yes show False ..
        qed
        with whole nl eq show ?thesis by blast
      next
        assume "g \<in> set (findall_tag t rest)"
        with "2.IH"(2) [OF True Some p [symmetric]] have r: "?P rest" by simp
        then obtain pre rest' where "rest = pre @ ?opening @ g @ ?closing @ rest'" by blast
        with whole have "c # cs = (?opening @ g' @ ?closing @ pre) @ ?opening @ g @ ?closing @ rest'"
          by simp
        with r show ?thesis by blast
      qed
    qed
  qed
qed

text \<open>The paragraph tags: a group is the shortest one exactly when the closing tag
  does not occur in it.\<close>

lemma p_tags:
  "60 # ascii ''p'' @ [62] = ascii ''<p>''"
  "[60, 47] @ ascii ''p'' @ [62] = ascii ''</p>''"
  by (simp_all add: ascii_def)

lemma closing_p_overlap:
  assumes "prefix (ascii ''</p>'') (d @ ascii ''</p>'')" "d \<noteq> []"
  shows "prefix (ascii ''</p>'') d"
  using assms
  by (cases d; cases "tl d"; cases "tl (tl d)"; cases "tl (tl (tl d))") (auto simp: ascii_def)

lemma closing_p_shortest:
  "(\<forall>k<length g. \<not> prefix (ascii ''</p>'') (drop k (g @ ascii ''</p>''))) \<longleftrightarrow>
     \<not> sublist (ascii ''</p>'') g"
proof
  assume short: "\<forall>k<length g. \<not> prefix (ascii ''</p>'') (drop k (g @ ascii ''</p>''))"
  show "\<not> sublist (ascii ''</p>'') g"
  proof
    assume "sublist (ascii ''</p>'') g"
    then obtain a b where g: "g = a @ ascii ''</p>'' @ b" unfolding sublist_def by blast
    then have "length a < length g" by (simp add: ascii_def)
    moreover have "prefix (ascii ''</p>'') (drop (length a) (g @ ascii ''</p>''))"
      by (simp add: g)
    ultimately show False using short by blast
  qed
next
  assume no: "\<not> sublist (ascii ''</p>'') g"
  show "\<forall>k<length g. \<not> prefix (ascii ''</p>'') (drop k (g @ ascii ''</p>''))"
  proof (intro allI impI notI)
    fix k assume k: "k < length g"
      and "prefix (ascii ''</p>'') (drop k (g @ ascii ''</p>''))"
    with k have "prefix (ascii ''</p>'') (drop k g @ ascii ''</p>'')" by simp
    moreover from k have "drop k g \<noteq> []" by simp
    ultimately have "prefix (ascii ''</p>'') (drop k g)" by (rule closing_p_overlap)
    then have "sublist (ascii ''</p>'') (take k g @ drop k g)"
      unfolding sublist_def prefix_def by (metis append.assoc)
    with no show False by simp
  qed
qed

lemma findall_p_element:
  assumes "g \<in> set (findall_tag (ascii ''p'') s)"
  shows "(\<exists>pre rest. s = pre @ ascii ''<p>'' @ g @ ascii ''</p>'' @ rest) \<and>
     10 \<notin> set g \<and> \<not> sublist (ascii ''</p>'') g"
  using findall_tag_element [OF assms] unfolding p_tags closing_p_shortest .

lemma findall_p_first:
  assumes "s = pre @ ascii ''<p>'' @ g @ ascii ''</p>'' @ rest"
    and "10 \<notin> set g" and "\<not> sublist (ascii ''</p>'') g"
    and "\<forall>k<length pre. \<not> (\<exists>g' rest'.
      drop k s = ascii ''<p>'' @ g' @ ascii ''</p>'' @ rest' \<and> 10 \<notin> set g')"
  shows "findall_tag (ascii ''p'') s = g # findall_tag (ascii ''p'') rest"
  using findall_tag_first [of g "ascii ''p''" pre rest] assms(2,3,4)
  unfolding p_tags closing_p_shortest assms(1) by blast

lemma findall_p_none:
  assumes "\<forall>k<length s. \<not> (\<exists>g rest.
      drop k s = ascii ''<p>'' @ g @ ascii ''</p>'' @ rest \<and> 10 \<notin> set g)"
  shows "findall_tag (ascii ''p'') s = []"
  using findall_tag_none [of s "ascii ''p''"] assms unfolding p_tags by blast

section \<open>Properties of the counters and of the data matrix\<close>

lemma dict_get_update:
  "dict_get (AList.update k v d) k' dflt = (if k' = k then v else dict_get d k' dflt)"
  by (simp add: dict_get_def update_conv')

lemma keys_update: "set (keys (AList.update k v d)) = insert k (set (keys d))"
  using dom_update [of k v d] by (simp add: keys_def)

lemma Counter_fold_get:
  "dict_get (fold (\<lambda>x d. AList.update x (dict_get d x 0 + 1) d) xs d0) k 0
     = dict_get d0 k 0 + int (count_list xs k)"
  by (induction xs arbitrary: d0) (auto simp: dict_get_update)

lemma Counter_fold_keys:
  "set (keys (fold (\<lambda>x d. AList.update x (dict_get d x (0::int) + 1) d) xs d0))
     = set (keys d0) \<union> set xs"
  by (induction xs arbitrary: d0) (auto simp: keys_update)

lemma Counter_get: "dict_get (Counter xs) k 0 = int (count_list xs k)"
proof -
  have "dict_get ([] :: ('a \<times> int) list) k 0 = 0" by (simp add: dict_get_def)
  then show ?thesis by (simp add: Counter_def Counter_fold_get)
qed

lemma Counter_keys: "set (keys (Counter xs)) = set xs"
proof -
  have "set (keys ([] :: ('a \<times> int) list)) = {}" by (simp add: keys_def)
  then show ?thesis by (simp add: Counter_def Counter_fold_keys)
qed

lemma update_fresh: "k \<notin> fst ` set d \<Longrightarrow> AList.update k v d = d @ [(k, v)]"
  by (induction d) auto

lemma fold_update_fresh:
  "distinct ws \<Longrightarrow> set ws \<inter> fst ` set d = {} \<Longrightarrow>
     fold (\<lambda>word md. AList.update word (f word) md) ws d = d @ map (\<lambda>word. (word, f word)) ws"
proof (induction ws arbitrary: d)
  case Nil
  then show ?case by simp
next
  case (Cons x ws)
  from Cons.prems have x: "x \<notin> fst ` set d" by auto
  from Cons.prems have "set ws \<inter> fst ` set (d @ [(x, f x)]) = {}" by auto
  with Cons.IH [of "d @ [(x, f x)]"] Cons.prems x show ?case
    by (simp add: update_fresh)
qed

lemma data_matrix_rows:
  "distinct ws \<Longrightarrow>
     data_matrix ws dicts = map (\<lambda>word. map (\<lambda>dic. of_int (dict_get dic word 0)) dicts) ws"
  using fold_update_fresh [of ws "[]" "\<lambda>word. map (\<lambda>dic. dict_get dic word 0) dicts"]
  by (simp add: data_matrix_def masterdict_def dict_values_def comp_def)

section \<open>Properties of the word count table\<close>



















lemma replicate_numeral: "replicate (numeral k) x = x # replicate (pred_numeral k) x"
  by (simp add: numeral_eq_Suc)

section \<open>Properties of runs\<close>

lemma bind_ret [simp]: "bind (ret x) f = f x"
  by (rule ext) (simp add: bind_def ret_def)

lemma bind_lift_Inr [simp]: "bind (lift (Inr x)) f = f x"
  by (rule ext) (simp add: bind_def lift_def)

lemma bind_lift_Inl [simp]: "bind (lift (Inl e)) f hist = (hist, Inl e)"
  by (simp add: bind_def lift_def)

lemma bind_run:
  "bind m f hist = (hist'', Inr y) \<longleftrightarrow>
     (\<exists>hist' x. m hist = (hist', Inr x) \<and> f x hist' = (hist'', Inr y))"
  by (auto simp: bind_def split: prod.splits sum.splits)

lemma ext_run:
  "ext c f hist = (hist', Inr x) \<longleftrightarrow> f hist = Inr x \<and> hist' = hist @ [(c, None)]"
  by (auto simp: ext_def outcome_def Let_def split: sum.splits)

lemma lift_run: "lift r hist = (hist', Inr x) \<longleftrightarrow> r = Inr x \<and> hist' = hist"
  by (auto simp: lift_def)

lemma ret_run: "ret x hist = (hist', Inr y) \<longleftrightarrow> y = x \<and> hist' = hist"
  by (auto simp: ret_def)

lemma no_recovery_Nil [simp]: "no_recovery [] r"
  by (simp add: no_recovery_def)

lemma propagates_ret: "propagates (ret x)"
  by (simp add: propagates_def ret_def)

lemma propagates_lift: "propagates (lift r)"
  by (simp add: propagates_def lift_def)

lemma propagates_ext: "propagates (ext c f)"
proof -
  have "no_recovery [(c, outcome (f hist))] (f hist)" for hist
    by (cases "f hist") (simp_all add: no_recovery_def outcome_def)
  then show ?thesis by (simp add: propagates_def ext_def Let_def)
qed

lemma no_recovery_Inr: "no_recovery new (Inr x) \<Longrightarrow> ev \<in> set new \<Longrightarrow> snd ev = None"
  by (cases "snd ev") (auto simp: no_recovery_def in_set_conv_nth)

lemma no_recovery_append:
  assumes "\<forall>ev\<in>set new1. snd ev = None" "no_recovery new2 r"
  shows "no_recovery (new1 @ new2) r"
  unfolding no_recovery_def
proof (intro allI impI)
  fix i e
  assume i: "i < length (new1 @ new2)" and e: "snd ((new1 @ new2) ! i) = Some e"
  have "\<not> i < length new1"
  proof
    assume "i < length new1"
    then have "(new1 @ new2) ! i \<in> set new1" by (simp add: nth_append)
    with assms(1) e show False by auto
  qed
  then have "(new1 @ new2) ! i = new2 ! (i - length new1)" "i - length new1 < length new2"
    using i by (simp_all add: nth_append)
  with assms(2) e have "Suc (i - length new1) = length new2 \<and> r = Inl e"
    by (simp add: no_recovery_def)
  with \<open>\<not> i < length new1\<close> show "Suc i = length (new1 @ new2) \<and> r = Inl e" by auto
qed

lemma no_recovery_Inl:
  "no_recovery new (Inl e :: exn + 'a) \<Longrightarrow> no_recovery new (Inl e :: exn + 'b)"
  by (simp add: no_recovery_def)

lemma propagates_bind:
  assumes "propagates m" "\<And>x. propagates (f x)"
  shows "propagates (bind m f)"
  unfolding propagates_def
proof
  fix hist
  from assms(1) obtain new1 where m: "fst (m hist) = hist @ new1" "no_recovery new1 (snd (m hist))"
    unfolding propagates_def by blast
  show "\<exists>new. fst (bind m f hist) = hist @ new \<and> no_recovery new (snd (bind m f hist))"
  proof (cases "snd (m hist)")
    case (Inl e)
    with m have "bind m f hist = (hist @ new1, Inl e)"
      by (cases "m hist") (simp add: bind_def)
    with m Inl show ?thesis using no_recovery_Inl by fastforce
  next
    case (Inr x)
    with m have b: "bind m f hist = f x (hist @ new1)"
      by (cases "m hist") (simp add: bind_def)
    from assms(2) [of x] obtain new2 where
      f: "fst (f x (hist @ new1)) = (hist @ new1) @ new2" "no_recovery new2 (snd (f x (hist @ new1)))"
      unfolding propagates_def by blast
    from m(2) Inr have "\<forall>ev\<in>set new1. snd ev = None"
      using no_recovery_Inr by metis
    then have "no_recovery (new1 @ new2) (snd (f x (hist @ new1)))"
      using f(2) by (rule no_recovery_append)
    with f(1) b show ?thesis by auto
  qed
qed

lemma propagates_for_loop:
  assumes "\<And>x s. propagates (body x s)"
  shows "propagates (for_loop xs body s)"
proof (induction xs arbitrary: s)
  case Nil
  show ?case by (simp add: propagates_ret)
next
  case (Cons x xs)
  show ?case by (simp add: propagates_bind assms Cons.IH)
qed

lemma propagates_Let: "(\<And>x. propagates (f x)) \<Longrightarrow> propagates (Let v f)"
  by (simp add: Let_def)

lemma propagates_case_prod: "(\<And>a b. propagates (f a b)) \<Longrightarrow> propagates (case_prod f p)"
  by (cases p) simp

lemmas propagates_intros = propagates_ret propagates_lift propagates_ext propagates_bind
  propagates_for_loop propagates_Let propagates_case_prod

lemma propagates_nmf_notebook: "propagates (nmf_notebook env links)"
  unfolding nmf_notebook_def after_nmf_def cell_parse_def parse_link_def cell_write_def
    cell_nmf_def cell_resnorm_def cell_top_words_def top_words_def cell_display_def
    cell_categories_def categorise_def
  by (intro propagates_intros)

lemma propagates_socp_notebook: "propagates (socp_notebook env)"
  unfolding socp_notebook_def
  by (intro propagates_intros)

lemma propagates_imp_vol_cell: "propagates (imp_vol_cell env mode p k s0 t r)"
  unfolding imp_vol_cell_def
  by (intro propagates_intros)

lemma propagates_draw_cell: "propagates (draw_cell env n)"
  unfolding draw_cell_def
  by (intro propagates_intros)

section \<open>Properties of the parsing cell\<close>

lemma parse_link_run:
  assumes "parse_link env link nb hist = (hist', Inr nb')"
  shows "\<exists>page1 page2.
      urlopen_read_decode env hist link = Inr page1 \<and>
      urlopen_read_decode env (hist @ [(Urlopen link, None)]) link = Inr page2 \<and>
      hist' = hist @ fetched [link] \<and>
      nb' = nb\<lparr>nb_stdout := nb_stdout nb @ [Out_list (findall_tag (ascii ''title'') page2)],
               nb_titles := nb_titles nb @ [findall_tag (ascii ''title'') page2],
               nb_dicts := nb_dicts nb @ [Counter (page_words env page1)],
               nb_wordset := nb_wordset nb \<union> set (page_words env page1)\<rparr>"
  using assms
  by (auto simp: parse_link_def bind_run ext_run ret_run Let_def py_print_def fetched_def
      page_words_def Counter_keys)

lemma fetched_Cons: "fetched (link # links) = fetched [link] @ fetched links"
  by (simp add: fetched_def)

lemma length_fetched: "length (fetched links) = 2 * length links"
  by (induction links) (simp_all add: fetched_def)

lemma parse_loop_run:
  assumes "for_loop links (parse_link env) nb hist = (hist', Inr nb')"
  shows "hist' = hist @ fetched links \<and>
    (\<exists>pages. length pages = length links \<and>
       (\<forall>j<length links.
          urlopen_read_decode env (hist @ fetched (take j links)) (links ! j) = Inr (pages ! j)) \<and>
       nb_dicts nb' = nb_dicts nb @ map (\<lambda>page. Counter (page_words env page)) pages \<and>
       nb_wordset nb' = nb_wordset nb \<union> (\<Union>page\<in>set pages. set (page_words env page))) \<and>
    length (nb_titles nb') = length (nb_titles nb) + length links \<and>
    nb_links nb' = nb_links nb \<and> nb_n_links nb' = nb_n_links nb"
  using assms
proof (induction links arbitrary: nb hist)
  case Nil
  then show ?case by (simp add: ret_run fetched_def)
next
  case (Cons link links)
  from Cons.prems obtain hist1 nb1 where
    step: "parse_link env link nb hist = (hist1, Inr nb1)"
    and rest: "for_loop links (parse_link env) nb1 hist1 = (hist', Inr nb')"
    by (auto simp: bind_run)
  from parse_link_run [OF step] obtain page1 page2 where
    p1: "urlopen_read_decode env hist link = Inr page1"
    and h1: "hist1 = hist @ fetched [link]"
    and nb1: "nb1 = nb\<lparr>nb_stdout := nb_stdout nb @ [Out_list (findall_tag (ascii ''title'') page2)],
               nb_titles := nb_titles nb @ [findall_tag (ascii ''title'') page2],
               nb_dicts := nb_dicts nb @ [Counter (page_words env page1)],
               nb_wordset := nb_wordset nb \<union> set (page_words env page1)\<rparr>"
    by blast
  from Cons.IH [OF rest] obtain pages where
    h': "hist' = hist1 @ fetched links"
    and len: "length pages = length links"
    and fetch: "\<forall>j<length links.
          urlopen_read_decode env (hist1 @ fetched (take j links)) (links ! j) = Inr (pages ! j)"
    and dicts: "nb_dicts nb' = nb_dicts nb1 @ map (\<lambda>page. Counter (page_words env page)) pages"
    and wordset: "nb_wordset nb' = nb_wordset nb1 \<union> (\<Union>page\<in>set pages. set (page_words env page))"
    and others: "length (nb_titles nb') = length (nb_titles nb1) + length links"
      "nb_links nb' = nb_links nb1" "nb_n_links nb' = nb_n_links nb1"
    by blast
  have "urlopen_read_decode env (hist @ fetched (take j (link # links))) ((link # links) ! j)
      = Inr ((page1 # pages) ! j)" if "j < length (link # links)" for j
  proof (cases j)
    case 0
    with p1 show ?thesis by (simp add: fetched_def)
  next
    case (Suc j')
    with that have "j' < length links" by simp
    with fetch have "urlopen_read_decode env (hist1 @ fetched (take j' links)) (links ! j')
        = Inr (pages ! j')" by simp
    then show ?thesis by (simp add: Suc h1 fetched_Cons [of link "take j' links"])
  qed
  then have "length (page1 # pages) = length (link # links) \<and>
       (\<forall>j<length (link # links).
          urlopen_read_decode env (hist @ fetched (take j (link # links))) ((link # links) ! j)
            = Inr ((page1 # pages) ! j)) \<and>
       nb_dicts nb' = nb_dicts nb @ map (\<lambda>page. Counter (page_words env page)) (page1 # pages) \<and>
       nb_wordset nb' = nb_wordset nb \<union> (\<Union>page\<in>set (page1 # pages). set (page_words env page))"
    using len dicts wordset by (auto simp: nb1)
  moreover have "hist' = hist @ fetched (link # links)"
    by (simp add: h' h1 fetched_Cons [of link links])
  moreover have "length (nb_titles nb') = length (nb_titles nb) + length (link # links)"
    "nb_links nb' = nb_links nb" "nb_n_links nb' = nb_n_links nb"
    using others by (simp_all add: nb1)
  ultimately show ?case by blast
qed

lemma cell_parse_run:
  assumes "cell_parse env links nb0 hist = (hist', Inr nb)"
  shows "hist' = hist @ fetched links \<and>
    (\<exists>pages. length pages = length links \<and>
       (\<forall>j<length links.
          urlopen_read_decode env (hist @ fetched (take j links)) (links ! j) = Inr (pages ! j)) \<and>
       nb_dicts nb = map (\<lambda>page. Counter (page_words env page)) pages \<and>
       nb_wordset nb = (\<Union>page\<in>set pages. set (page_words env page))) \<and>
    length (nb_titles nb) = length links \<and> nb_links nb = links \<and> nb_n_links nb = length links"
  using parse_loop_run [OF assms [unfolded cell_parse_def Let_def]]
  by (simp add: py_print_def)


lemma parse_link_returns:
  assumes "urlopen_read_decode env hist link = Inr page1"
    and "urlopen_read_decode env (hist @ [(Urlopen link, None)]) link = Inr page2"
  shows "\<exists>nb'. parse_link env link nb hist = (hist @ fetched [link], Inr nb')"
  using assms
  by (simp add: parse_link_def bind_def ext_def outcome_def ret_def Let_def fetched_def)

lemma parse_loop_returns:
  assumes "\<forall>j<length links. \<exists>page1 page2.
      urlopen_read_decode env (hist @ fetched (take j links)) (links ! j) = Inr page1 \<and>
      urlopen_read_decode env (hist @ fetched (take j links) @ [(Urlopen (links ! j), None)])
        (links ! j) = Inr page2"
  shows "\<exists>nb'. for_loop links (parse_link env) nb hist = (hist @ fetched links, Inr nb')"
  using assms
proof (induction links arbitrary: nb hist)
  case Nil
  show ?case by (simp add: ret_def fetched_def)
next
  case (Cons link links)
  from Cons.prems [rule_format, of 0] obtain page1 page2 where
    "urlopen_read_decode env hist link = Inr page1"
    "urlopen_read_decode env (hist @ [(Urlopen link, None)]) link = Inr page2"
    by (auto simp: fetched_def)
  from parse_link_returns [OF this] obtain nb1 where
    step: "parse_link env link nb hist = (hist @ fetched [link], Inr nb1)" by blast
  have "\<forall>j<length links. \<exists>page1 page2.
      urlopen_read_decode env ((hist @ fetched [link]) @ fetched (take j links)) (links ! j)
        = Inr page1 \<and>
      urlopen_read_decode env ((hist @ fetched [link]) @ fetched (take j links) @
        [(Urlopen (links ! j), None)]) (links ! j) = Inr page2"
  proof (intro allI impI)
    fix j assume "j < length links"
    then have "Suc j < length (link # links)" by simp
    from Cons.prems [rule_format, OF this] show "\<exists>page1 page2.
      urlopen_read_decode env ((hist @ fetched [link]) @ fetched (take j links)) (links ! j)
        = Inr page1 \<and>
      urlopen_read_decode env ((hist @ fetched [link]) @ fetched (take j links) @
        [(Urlopen (links ! j), None)]) (links ! j) = Inr page2"
      by (simp add: fetched_Cons [of link "take j links"])
  qed
  from Cons.IH [OF this] obtain nb' where
    "for_loop links (parse_link env) nb1 (hist @ fetched [link])
       = ((hist @ fetched [link]) @ fetched links, Inr nb')" by blast
  with step have "for_loop (link # links) (parse_link env) nb hist
      = (hist @ fetched (link # links), Inr nb')"
    by (simp add: bind_def fetched_Cons [of link links])
  then show ?case by blast
qed

lemma parse_loop_titles:
  assumes "for_loop links (parse_link env) nb hist = (hist', Inr nb')"
  shows "\<exists>pages2. length pages2 = length links \<and>
       (\<forall>j<length links.
          urlopen_read_decode env (hist @ fetched (take j links) @ [(Urlopen (links ! j), None)])
            (links ! j) = Inr (pages2 ! j)) \<and>
       nb_titles nb' = nb_titles nb @ map (findall_tag (ascii ''title'')) pages2"
  using assms
proof (induction links arbitrary: nb hist)
  case Nil
  then show ?case by (simp add: ret_run)
next
  case (Cons link links)
  from Cons.prems obtain hist1 nb1 where
    step: "parse_link env link nb hist = (hist1, Inr nb1)"
    and rest: "for_loop links (parse_link env) nb1 hist1 = (hist', Inr nb')"
    by (auto simp: bind_run)
  from parse_link_run [OF step] obtain page1 page2 where
    p2: "urlopen_read_decode env (hist @ [(Urlopen link, None)]) link = Inr page2"
    and h1: "hist1 = hist @ fetched [link]"
    and nb1: "nb_titles nb1 = nb_titles nb @ [findall_tag (ascii ''title'') page2]"
    by auto
  from Cons.IH [OF rest] obtain pages2 where
    len: "length pages2 = length links"
    and fetch: "\<forall>j<length links.
          urlopen_read_decode env (hist1 @ fetched (take j links) @ [(Urlopen (links ! j), None)])
            (links ! j) = Inr (pages2 ! j)"
    and titles: "nb_titles nb' = nb_titles nb1 @ map (findall_tag (ascii ''title'')) pages2"
    by blast
  have "urlopen_read_decode env
          (hist @ fetched (take j (link # links)) @ [(Urlopen ((link # links) ! j), None)])
          ((link # links) ! j) = Inr ((page2 # pages2) ! j)" if "j < length (link # links)" for j
  proof (cases j)
    case 0
    with p2 show ?thesis by (simp add: fetched_def)
  next
    case (Suc j')
    with that have "j' < length links" by simp
    with fetch have "urlopen_read_decode env
        (hist1 @ fetched (take j' links) @ [(Urlopen (links ! j'), None)]) (links ! j')
        = Inr (pages2 ! j')" by simp
    then show ?thesis by (simp add: Suc h1 fetched_Cons [of link "take j' links"])
  qed
  moreover have "length (page2 # pages2) = length (link # links)" using len by simp
  moreover have "nb_titles nb' = nb_titles nb @ map (findall_tag (ascii ''title'')) (page2 # pages2)"
    using titles nb1 by simp
  ultimately show ?case by blast
qed

lemma cell_parse_titles:
  assumes "cell_parse env links nb0 hist = (hist', Inr nb)"
  shows "\<exists>pages2. length pages2 = length links \<and>
       (\<forall>j<length links.
          urlopen_read_decode env (hist @ fetched (take j links) @ [(Urlopen (links ! j), None)])
            (links ! j) = Inr (pages2 ! j)) \<and>
       nb_titles nb = map (findall_tag (ascii ''title'')) pages2"
  using parse_loop_titles [OF assms [unfolded cell_parse_def Let_def]]
  by (simp add: py_print_def)

section \<open>The small world\<close>

lemma demo_page_words:
  "page_words demo_env (demo_page (ascii ''u1'')) = [ascii ''brexit'', ascii ''deal'', ascii ''no'', ascii ''deal'', ascii ''brexit'']"
  "page_words demo_env (demo_page (ascii ''u2'')) = [ascii ''trump'', ascii ''says'', ascii ''deal'']"
  by (simp_all add: page_words_def demo_env_def demo_page_def ascii_lower_def pagewords_def
      translate_def trans_apply py_split_def py_isspace_def punctuation_def ascii_def)

lemma demo_parse:
  "\<exists>nb. cell_parse demo_env demo_links empty_notebook [] = (fetched demo_links, Inr nb) \<and>
     nb_dicts nb = [Counter (page_words demo_env (demo_page (ascii ''u1''))),
                    Counter (page_words demo_env (demo_page (ascii ''u2'')))] \<and>
     nb_wordset nb = set (page_words demo_env (demo_page (ascii ''u1''))) \<union>
                     set (page_words demo_env (demo_page (ascii ''u2'')))"
proof -
  have "\<exists>nb. cell_parse demo_env demo_links empty_notebook [] = ([] @ fetched demo_links, Inr nb)"
    unfolding cell_parse_def Let_def
    by (rule parse_loop_returns) (simp add: demo_env_def)
  then obtain nb where run: "cell_parse demo_env demo_links empty_notebook [] = (fetched demo_links, Inr nb)"
    by auto
  from cell_parse_run [OF run] obtain pages where
    len: "length pages = length demo_links"
    and fetch: "\<forall>j<length demo_links.
      urlopen_read_decode demo_env ([] @ fetched (take j demo_links)) (demo_links ! j) = Inr (pages ! j)"
    and dicts: "nb_dicts nb = map (\<lambda>page. Counter (page_words demo_env page)) pages"
    and wordset: "nb_wordset nb = (\<Union>page\<in>set pages. set (page_words demo_env page))"
    by blast
  from fetch [rule_format, of 0] fetch [rule_format, of 1]
  have "pages ! 0 = demo_page (ascii ''u1'')" "pages ! 1 = demo_page (ascii ''u2'')"
    by (simp_all add: demo_links_def demo_env_def fetched_def)
  moreover from len have "pages = [pages ! 0, pages ! 1]"
    by (cases pages; cases "tl pages") (auto simp: demo_links_def)
  ultimately have "pages = [demo_page (ascii ''u1''), demo_page (ascii ''u2'')]" by simp
  with run dicts wordset show ?thesis by auto
qed


lemma demo_run:
  "\<exists>hist' nb'. bind (cell_nmf demo_env demo_parsed) (after_nmf demo_env) [] = (hist', Inr nb')"
  by (simp add: cell_nmf_def after_nmf_def cell_resnorm_def cell_top_words_def top_words_def
      cell_display_def cell_categories_def categorise_def category_of_def
      bind_def ext_def lift_def ret_def outcome_def Let_def py_print_def
      demo_env_def demo_parsed_def empty_notebook_def nd_get_def py_get_def
      link_columns_def replicate_numeral enumerate_eq_zip upt_rec
      numeral_2_eq_2 sorted_reverse_def)

section \<open>Properties of the cells after the factorization\<close>

lemma for_loop_preserves:
  assumes "\<And>x s hist hist' s'. body x s hist = (hist', Inr s') \<Longrightarrow> f s' = f s"
    and "for_loop xs body s hist = (hist', Inr s')"
  shows "f s' = f s"
  using assms(2)
proof (induction xs arbitrary: s hist)
  case Nil
  then show ?case by (simp add: ret_run)
next
  case (Cons x xs)
  from Cons.prems obtain hist1 s1 where
    "body x s hist = (hist1, Inr s1)" "for_loop xs body s1 hist1 = (hist', Inr s')"
    by (auto simp: bind_run)
  with assms(1) Cons.IH show ?case by metis
qed

lemma cell_resnorm_frame:
  "cell_resnorm env nb hist = (hist', Inr nb') \<Longrightarrow> factors nb' = factors nb"
  by (auto simp: cell_resnorm_def bind_run ext_run ret_run py_print_def Let_def factors_def)

lemma top_words_frame:
  "top_words i nb hist = (hist', Inr nb') \<Longrightarrow> factors nb' = factors nb"
  by (auto simp: top_words_def bind_run lift_run ret_run py_print_def Let_def factors_def)

lemma cell_top_words_frame:
  "cell_top_words nb hist = (hist', Inr nb') \<Longrightarrow> factors nb' = factors nb"
  unfolding cell_top_words_def
  by (rule for_loop_preserves [of top_words factors]) (rule top_words_frame)

lemma cell_display_frame:
  "cell_display env nb hist = (hist', Inr nb') \<Longrightarrow>
     factors nb' = factors nb \<and> nb_display_h nb' = Some (Out_frame link_columns (nb_h nb))"
  by (auto simp: cell_display_def bind_run ext_run ret_run factors_def Let_def split: if_splits)

lemma categorise_frame:
  "categorise il nb hist = (hist', Inr nb') \<Longrightarrow>
     factors nb' = factors nb \<and> nb_display_h nb' = nb_display_h nb"
  by (cases il)
    (auto simp: categorise_def bind_run lift_run ret_run py_print_def Let_def factors_def)

lemma cell_categories_frame:
  "cell_categories nb hist = (hist', Inr nb') \<Longrightarrow>
     factors nb' = factors nb \<and> nb_display_h nb' = nb_display_h nb"
  unfolding cell_categories_def
  using for_loop_preserves [of categorise "\<lambda>nb. (factors nb, nb_display_h nb)"]
    categorise_frame by (metis prod.inject)

lemma after_nmf_frame:
  assumes "after_nmf env nb hist = (hist', Inr nb')"
  shows "factors nb' = factors nb \<and> nb_display_h nb' = Some (Out_frame link_columns (nb_h nb))"
proof -
  from assms obtain h1 nb1 h2 nb2 h3 nb3 where
    1: "cell_resnorm env nb hist = (h1, Inr nb1)"
    and 2: "cell_top_words nb1 h1 = (h2, Inr nb2)"
    and 3: "cell_display env nb2 h2 = (h3, Inr nb3)"
    and 4: "cell_categories nb3 h3 = (hist', Inr nb')"
    unfolding after_nmf_def bind_run by blast
  from cell_resnorm_frame [OF 1] cell_top_words_frame [OF 2] cell_display_frame [OF 3]
    cell_categories_frame [OF 4]
  show ?thesis by (simp add: factors_def)
qed

lemma cell_nmf_run:
  assumes "cell_nmf env nb hist = (hist', Inr nb')"
  shows "real_nmf env hist (nb_a nb) 2 5842 (1 / 10 ^ 6) 500 = Inr (nb_w nb', nb_h nb') \<and>
    nb_a nb' = nb_a nb \<and> hist' = hist @ [(Real_nmf, None)]"
  using assms
  by (auto simp: cell_nmf_def bind_run lift_run ext_run ret_run split: list.splits)

section \<open>Properties of the categorization cell\<close>

lemma categorise_run:
  "categorise (i, link) nb hist = (hist', Inr nb') \<longleftrightarrow>
     category_ready nb i \<and> hist' = hist \<and>
     nb' = nb\<lparr>nb_stdout := nb_stdout nb @ [category_line nb i]\<rparr>"
proof (cases "category_ready nb i")
  case True
  then have h: "nd_get (nb_h nb) 0 i = Inr (nb_h nb ! 0 ! i)"
      "nd_get (nb_h nb) 1 i = Inr (nb_h nb ! 1 ! i)"
    and t: "py_get (nb_titles nb) i = Inr (nb_titles nb ! i)"
      "py_get (nb_titles nb ! i) 0 = Inr (nb_titles nb ! i ! 0)"
    by (auto simp: category_ready_def nd_get_def py_get_def)
  have c: "category_of (nb_h nb) i = Inr (if nb_h nb ! 0 ! i > nb_h nb ! 1 ! i then 0 else 1)"
    by (simp only: category_of_def h sum.case)
  have lab: "py_get [ascii '' (Trump)'', ascii '' (Brexit)'']
      (if nb_h nb ! 0 ! i > nb_h nb ! 1 ! i then 0 else 1)
      = Inr (if nb_h nb ! 0 ! i > nb_h nb ! 1 ! i then ascii '' (Trump)'' else ascii '' (Brexit)'')"
    by (simp add: py_get_def)
  have d: "str_int 0 = ascii ''0''" "str_int 1 = ascii ''1''"
    by (simp_all add: str_int_def digits.simps ascii_def)
  have "categorise (i, link) nb hist
      = (hist, Inr (nb\<lparr>nb_stdout := nb_stdout nb @ [category_line nb i]\<rparr>))"
    unfolding categorise_def prod.case c t lab bind_def lift_def ret_def sum.case Let_def
      py_print_def category_line_def
    by (simp add: d ascii_def)
  with True show ?thesis by auto
next
  case False
  then have "\<exists>e. categorise (i, link) nb hist = (hist, Inl e)"
    by (auto simp: categorise_def category_of_def category_ready_def nd_get_def py_get_def
        bind_def lift_def ret_def Let_def)
  with False show ?thesis by auto
qed

lemma categories_loop_run:
  "for_loop (enumerate k links) categorise nb hist = (hist', Inr nb') \<longleftrightarrow>
     (\<forall>j<length links. category_ready nb (k + j)) \<and> hist' = hist \<and>
     nb' = nb\<lparr>nb_stdout := nb_stdout nb @ map (category_line nb) [k..<k + length links]\<rparr>"
proof (induction links arbitrary: k nb)
  case Nil
  show ?case by (auto simp: ret_def)
next
  case (Cons link links)
  let ?nb1 = "nb\<lparr>nb_stdout := nb_stdout nb @ [category_line nb k]\<rparr>"
  have r: "category_ready ?nb1 = category_ready nb"
    by (rule ext) (simp add: category_ready_def)
  have l: "category_line ?nb1 = category_line nb"
    by (rule ext) (simp add: category_line_def)
  have u: "[k..<k + length (link # links)] = k # [Suc k..<Suc k + length links]"
  proof -
    have "k < k + length (link # links)" by simp
    from upt_conv_Cons [OF this] show ?thesis by simp
  qed
  have "for_loop (enumerate k (link # links)) categorise nb hist = (hist', Inr nb') \<longleftrightarrow>
      category_ready nb k \<and> for_loop (enumerate (Suc k) links) categorise ?nb1 hist = (hist', Inr nb')"
    using categorise_run [of k link nb hist]
    by (auto simp: bind_run)
  also have "\<dots> \<longleftrightarrow> category_ready nb k \<and> (\<forall>j<length links. category_ready nb (Suc k + j)) \<and>
      hist' = hist \<and>
      nb' = nb\<lparr>nb_stdout := nb_stdout nb @ map (category_line nb) [k..<k + length (link # links)]\<rparr>"
    unfolding Cons.IH [of "Suc k" ?nb1] r l u by simp
  also have "\<dots> \<longleftrightarrow> (\<forall>j<length (link # links). category_ready nb (k + j)) \<and> hist' = hist \<and>
      nb' = nb\<lparr>nb_stdout := nb_stdout nb @ map (category_line nb) [k..<k + length (link # links)]\<rparr>"
    by (simp add: All_less_Suc2)
  finally show ?case .
qed

lemma cell_categories_run:
  "cell_categories nb hist = (hist', Inr nb') \<longleftrightarrow>
     (\<forall>i<length (nb_links nb). category_ready nb i) \<and> hist' = hist \<and>
     nb' = nb\<lparr>nb_stdout := nb_stdout nb @ map (category_line nb) [0..<length (nb_links nb)]\<rparr>"
  using categories_loop_run [of 0 "nb_links nb" nb hist hist' nb']
  by (simp add: cell_categories_def)

lemma cell_nmf_keeps:
  "cell_nmf env nb hist = (hist', Inr nb') \<Longrightarrow>
     nb_links nb' = nb_links nb \<and> nb_titles nb' = nb_titles nb"
  by (auto simp: cell_nmf_def bind_run lift_run ext_run ret_run split: list.splits)

lemma cell_resnorm_keeps:
  "cell_resnorm env nb hist = (hist', Inr nb') \<Longrightarrow>
     nb_links nb' = nb_links nb \<and> nb_titles nb' = nb_titles nb"
  by (auto simp: cell_resnorm_def bind_run ext_run ret_run py_print_def Let_def)

lemma top_words_keeps:
  "top_words i nb hist = (hist', Inr nb') \<Longrightarrow>
     (nb_links nb', nb_titles nb') = (nb_links nb, nb_titles nb)"
  by (auto simp: top_words_def bind_run lift_run ret_run py_print_def Let_def)

lemma cell_top_words_keeps:
  "cell_top_words nb hist = (hist', Inr nb') \<Longrightarrow>
     (nb_links nb', nb_titles nb') = (nb_links nb, nb_titles nb)"
  unfolding cell_top_words_def
  by (rule for_loop_preserves [of top_words "\<lambda>nb. (nb_links nb, nb_titles nb)"])
    (rule top_words_keeps)

lemma cell_display_keeps:
  "cell_display env nb hist = (hist', Inr nb') \<Longrightarrow>
     nb_links nb' = nb_links nb \<and> nb_titles nb' = nb_titles nb"
  by (auto simp: cell_display_def bind_run ext_run ret_run Let_def split: if_splits)

lemma notebook_categories:
  assumes "bind (cell_nmf env nb) (after_nmf env) hist = (hist', Inr nb')"
  shows "\<exists>nb3. nb_h nb3 = nb_h nb' \<and> nb_titles nb3 = nb_titles nb \<and>
    nb_links nb3 = nb_links nb \<and> (\<forall>i<length (nb_links nb). category_ready nb3 i) \<and>
    nb_stdout nb' = nb_stdout nb3 @ map (category_line nb3) [0..<length (nb_links nb)]"
proof -
  from assms obtain h0 nb0 where
    0: "cell_nmf env nb hist = (h0, Inr nb0)"
    and a: "after_nmf env nb0 h0 = (hist', Inr nb')"
    unfolding bind_run by blast
  from a obtain h1 nb1 h2 nb2 h3 nb3 where
    1: "cell_resnorm env nb0 h0 = (h1, Inr nb1)"
    and 2: "cell_top_words nb1 h1 = (h2, Inr nb2)"
    and 3: "cell_display env nb2 h2 = (h3, Inr nb3)"
    and 4: "cell_categories nb3 h3 = (hist', Inr nb')"
    unfolding after_nmf_def bind_run by blast
  from cell_nmf_keeps [OF 0] cell_resnorm_keeps [OF 1] cell_top_words_keeps [OF 2]
    cell_display_keeps [OF 3]
  have k: "nb_links nb3 = nb_links nb" "nb_titles nb3 = nb_titles nb" by simp_all
  from cell_categories_frame [OF 4] have h: "nb_h nb3 = nb_h nb'"
    by (simp add: factors_def)
  from 4 have "(\<forall>i<length (nb_links nb3). category_ready nb3 i) \<and>
      nb' = nb3\<lparr>nb_stdout := nb_stdout nb3 @ map (category_line nb3) [0..<length (nb_links nb3)]\<rparr>"
    unfolding cell_categories_run by simp
  then have "(\<forall>i<length (nb_links nb). category_ready nb3 i) \<and>
      nb_stdout nb' = nb_stdout nb3 @ map (category_line nb3) [0..<length (nb_links nb)]"
    unfolding k by simp
  with k h show ?thesis by blast
qed

section \<open>Properties of the root finder loop\<close>

lemma root_finder_step_run:
  assumes "i < length p" "i < length k" "i < length s0" "i < length t" "i < length r"
  shows "root_finder_step env p k s0 t r i (data, ec) hist
      = (hist @ [(Contfn_cntin, outcome (contfn_cntin env hist (15 / 100) (black_scholes env)
            (1 / 10 ^ 14) 0 500
            (data(''p'' \<mapsto> p ! i, ''k'' \<mapsto> k ! i, ''s0'' \<mapsto> s0 ! i, ''t'' \<mapsto> t ! i, ''r'' \<mapsto> r ! i))))],
         Inr (case contfn_cntin env hist (15 / 100) (black_scholes env) (1 / 10 ^ 14) 0 500
            (data(''p'' \<mapsto> p ! i, ''k'' \<mapsto> k ! i, ''s0'' \<mapsto> s0 ! i, ''t'' \<mapsto> t ! i, ''r'' \<mapsto> r ! i)) of
              Inl e \<Rightarrow>
                (data(''p'' \<mapsto> p ! i, ''k'' \<mapsto> k ! i, ''s0'' \<mapsto> s0 ! i, ''t'' \<mapsto> t ! i, ''r'' \<mapsto> r ! i),
                 ec + 1)
            | Inr sigma \<Rightarrow>
                (data(''p'' \<mapsto> p ! i, ''k'' \<mapsto> k ! i, ''s0'' \<mapsto> s0 ! i, ''t'' \<mapsto> t ! i, ''r'' \<mapsto> r ! i),
                 if sigma < 0 then ec + 1 else ec)))"
proof -
  let ?data = "data(''p'' \<mapsto> p ! i, ''k'' \<mapsto> k ! i, ''s0'' \<mapsto> s0 ! i, ''t'' \<mapsto> t ! i, ''r'' \<mapsto> r ! i)"
  let ?call = "contfn_cntin env hist (15 / 100) (black_scholes env) (1 / 10 ^ 14) 0 500 ?data"
  show ?thesis
    using assms
    by (cases ?call)
      (simp_all add: root_finder_step_def py_get_def try_except_def bind_def ext_def ret_def
        outcome_def Let_def lift_def)
qed

lemma root_finder_step_returns:
  assumes "i < length p" "i < length k" "i < length s0" "i < length t" "i < length r"
  shows "\<exists>ev data' ec'. root_finder_step env p k s0 t r i (data, ec) hist
      = (hist @ [ev], Inr (data', ec')) \<and> fst ev = Contfn_cntin \<and>
      ec \<le> ec' \<and> ec' \<le> ec + 1 \<and> (snd ev \<noteq> None \<longrightarrow> ec' = ec + 1)"
proof -
  let ?data = "data(''p'' \<mapsto> p ! i, ''k'' \<mapsto> k ! i, ''s0'' \<mapsto> s0 ! i, ''t'' \<mapsto> t ! i, ''r'' \<mapsto> r ! i)"
  let ?call = "contfn_cntin env hist (15 / 100) (black_scholes env) (1 / 10 ^ 14) 0 500 ?data"
  have "root_finder_step env p k s0 t r i (data, ec) hist
      = (hist @ [(Contfn_cntin, outcome ?call)],
         Inr (case ?call of Inl e \<Rightarrow> (?data, ec + 1)
              | Inr sigma \<Rightarrow> (?data, if sigma < 0 then ec + 1 else ec)))"
    using assms
    by (cases ?call)
      (simp_all add: root_finder_step_def py_get_def try_except_def bind_def ext_def ret_def
        outcome_def Let_def lift_def)
  then show ?thesis
    by (cases ?call) (auto simp: outcome_def)
qed

lemma root_finder_loop_returns:
  assumes "\<forall>i\<in>set xs. i < length p \<and> i < length k \<and> i < length s0 \<and> i < length t \<and> i < length r"
  shows "\<exists>new data' ec'. for_loop xs (root_finder_step env p k s0 t r) (data, ec) hist
      = (hist @ new, Inr (data', ec')) \<and> map fst new = replicate (length xs) Contfn_cntin \<and>
      ec + int (length (filter (\<lambda>ev. snd ev \<noteq> None) new)) \<le> ec' \<and>
      ec' \<le> ec + int (length xs)"
  using assms
proof (induction xs arbitrary: data ec hist)
  case Nil
  show ?case by (simp add: ret_def)
next
  case (Cons i xs)
  from Cons.prems have i: "i < length p" "i < length k" "i < length s0" "i < length t" "i < length r"
    by simp_all
  from root_finder_step_returns [OF i, of env data ec hist] obtain ev data1 ec1 where
    step: "root_finder_step env p k s0 t r i (data, ec) hist = (hist @ [ev], Inr (data1, ec1))"
    and ev: "fst ev = Contfn_cntin"
    and ec1: "ec \<le> ec1" "ec1 \<le> ec + 1" "snd ev \<noteq> None \<longrightarrow> ec1 = ec + 1"
    by blast
  from Cons.prems have "\<forall>i\<in>set xs. i < length p \<and> i < length k \<and> i < length s0 \<and>
      i < length t \<and> i < length r" by simp
  from Cons.IH [OF this, of data1 ec1 "hist @ [ev]"] obtain new data' ec' where
    rest: "for_loop xs (root_finder_step env p k s0 t r) (data1, ec1) (hist @ [ev])
        = ((hist @ [ev]) @ new, Inr (data', ec'))"
    and new: "map fst new = replicate (length xs) Contfn_cntin"
    and ec': "ec1 + int (length (filter (\<lambda>ev. snd ev \<noteq> None) new)) \<le> ec'"
      "ec' \<le> ec1 + int (length xs)"
    by blast
  have "for_loop (i # xs) (root_finder_step env p k s0 t r) (data, ec) hist
      = (hist @ (ev # new), Inr (data', ec'))"
    using step rest by (simp add: bind_def)
  moreover have "map fst (ev # new) = replicate (length (i # xs)) Contfn_cntin"
    using ev new by simp
  moreover have "ec + int (length (filter (\<lambda>ev. snd ev \<noteq> None) (ev # new))) \<le> ec'"
    using ec1 ec' by (cases "snd ev") auto
  moreover have "ec' \<le> ec + int (length (i # xs))"
    using ec1 ec' by simp
  ultimately show ?case by blast
qed

lemma root_finder_cell_returns:
  assumes "n \<le> length p" "n \<le> length k" "n \<le> length s0" "n \<le> length t" "n \<le> length r"
  shows "\<exists>new data errorcount. root_finder_cell env n p k s0 t r hist
      = (hist @ new, Inr (data, errorcount)) \<and> map fst new = replicate n Contfn_cntin \<and>
      int (length (filter (\<lambda>ev. snd ev \<noteq> None) new)) \<le> errorcount \<and> errorcount \<le> int n"
proof -
  have "\<forall>i\<in>set [0..<n]. i < length p \<and> i < length k \<and> i < length s0 \<and> i < length t \<and> i < length r"
    using assms by simp
  from root_finder_loop_returns [OF this, of env Map.empty 0 hist]
  show ?thesis by (simp add: root_finder_cell_def)
qed

section \<open>The calls of a run\<close>

lemma for_loop_silent:
  assumes "\<And>x s hist hist' s'. body x s hist = (hist', Inr s') \<Longrightarrow> hist' = hist"
    and "for_loop xs body s hist = (hist', Inr s')"
  shows "hist' = hist"
  using assms(2)
proof (induction xs arbitrary: s hist)
  case Nil
  then show ?case by (simp add: ret_run)
next
  case (Cons x xs)
  from Cons.prems obtain hist1 s1 where
    "body x s hist = (hist1, Inr s1)" "for_loop xs body s1 hist1 = (hist', Inr s')"
    by (auto simp: bind_run)
  with assms(1) Cons.IH show ?case by metis
qed

lemma after_nmf_history:
  assumes "after_nmf env nb hist = (hist', Inr nb')"
  shows "hist' = hist @ map (\<lambda>c. (c, None)) [Np_matmul, Np_subtract, Scipy_norm, Scipy_norm, Pd_DataFrame, Pd_set_option]"
proof -
  from assms obtain h1 nb1 h2 nb2 h3 nb3 where
    1: "cell_resnorm env nb hist = (h1, Inr nb1)"
    and 2: "cell_top_words nb1 h1 = (h2, Inr nb2)"
    and 3: "cell_display env nb2 h2 = (h3, Inr nb3)"
    and 4: "cell_categories nb3 h3 = (hist', Inr nb')"
    unfolding after_nmf_def bind_run by blast
  from 1 have "h1 = hist @ map (\<lambda>c. (c, None)) [Np_matmul, Np_subtract, Scipy_norm, Scipy_norm]"
    by (auto simp: cell_resnorm_def bind_run ext_run ret_run Let_def)
  moreover have "h2 = h1"
    using 2 unfolding cell_top_words_def
    by (rule for_loop_silent [rotated])
      (auto simp: top_words_def bind_run lift_run ret_run Let_def)
  moreover from 3 have "h3 = h2 @ [(Pd_DataFrame, None), (Pd_set_option, None)]"
    by (auto simp: cell_display_def bind_run ext_run ret_run Let_def)
  moreover have "hist' = h3"
    using 4 unfolding cell_categories_def
    by (rule for_loop_silent [rotated])
      (auto simp: categorise_def bind_run lift_run ret_run Let_def split: prod.splits)
  ultimately show ?thesis by simp
qed

lemma socp_notebook_history:
  assumes "socp_notebook env hist = (hist', Inr res)"
  shows "hist' = hist @ map (\<lambda>c. (c, None))
    [Handle_init, Handle_set_linobj, Handle_set_simplebounds, Handle_set_linconstr,
     Handle_set_group, Handle_opt_set, Handle_opt_set, FileObjManager,
     Handle_solve_socp_ipm, Handle_free]"
  using assms
  by (auto simp: socp_notebook_def bind_run ext_run ret_run lift_run Let_def)

lemma imp_vol_cell_history:
  assumes "imp_vol_cell env mode p k s0 t r hist = (hist', Inr out)"
  shows "hist' = hist @ [(Opt_imp_vol mode, None)]"
  using assms
  by (auto simp: imp_vol_cell_def bind_run ext_run ret_run split: prod.splits)

lemma calls_of_Nil [simp]: "calls_of c [] = 0"
  by (simp add: calls_of_def)

lemma calls_of_append [simp]: "calls_of c (xs @ ys) = calls_of c xs + calls_of c ys"
  by (simp add: calls_of_def)

lemma at_most_ret: "calls_at_most c 0 (ret x)"
  by (simp add: calls_at_most_def ret_def)

lemma at_most_lift: "calls_at_most c 0 (lift r)"
  by (simp add: calls_at_most_def lift_def)

lemma at_most_ext_other: "c' \<noteq> c \<Longrightarrow> calls_at_most c 0 (ext c' f)"
  by (simp add: calls_at_most_def ext_def Let_def calls_of_def)

lemma at_most_ext: "calls_at_most c 1 (ext c f)"
  by (simp add: calls_at_most_def ext_def Let_def calls_of_def)

lemma at_most_bind:
  assumes "calls_at_most c n1 m" "\<And>x. calls_at_most c n2 (f x)"
  shows "calls_at_most c (n1 + n2) (bind m f)"
  unfolding calls_at_most_def
proof
  fix hist
  from assms(1) obtain new1 where m: "fst (m hist) = hist @ new1" "calls_of c new1 \<le> n1"
    unfolding calls_at_most_def by blast
  show "\<exists>new. fst (bind m f hist) = hist @ new \<and> calls_of c new \<le> n1 + n2"
  proof (cases "snd (m hist)")
    case (Inl e)
    with m have "fst (bind m f hist) = hist @ new1"
      by (cases "m hist") (simp add: bind_def)
    with m(2) show ?thesis by (intro exI [of _ new1]) simp
  next
    case (Inr x)
    with m have b: "bind m f hist = f x (hist @ new1)"
      by (cases "m hist") (simp add: bind_def)
    from assms(2) [of x] obtain new2 where
      "fst (f x (hist @ new1)) = (hist @ new1) @ new2" "calls_of c new2 \<le> n2"
      unfolding calls_at_most_def by blast
    with b m(2) show ?thesis by (intro exI [of _ "new1 @ new2"]) simp
  qed
qed

lemma at_most_bind0:
  "calls_at_most c 0 m \<Longrightarrow> (\<And>x. calls_at_most c 0 (f x)) \<Longrightarrow> calls_at_most c 0 (bind m f)"
  using at_most_bind [of c 0 m 0 f] by simp

lemma at_most_for_loop0:
  assumes "\<And>x s. calls_at_most c 0 (body x s)"
  shows "calls_at_most c 0 (for_loop xs body s)"
proof (induction xs arbitrary: s)
  case Nil
  show ?case by (simp add: at_most_ret)
next
  case (Cons x xs)
  show ?case by (simp add: at_most_bind0 assms Cons.IH)
qed

lemma at_most_Let: "(\<And>x. calls_at_most c n (f x)) \<Longrightarrow> calls_at_most c n (Let v f)"
  by (simp add: Let_def)

lemma at_most_case_prod:
  "(\<And>a b. calls_at_most c n (f a b)) \<Longrightarrow> calls_at_most c n (case_prod f p)"
  by (cases p) simp

lemmas at_most_zero = at_most_ret at_most_lift at_most_ext_other at_most_bind0
  at_most_for_loop0 at_most_Let at_most_case_prod

lemma real_nmf_at_most_once: "calls_at_most Real_nmf 1 (nmf_notebook env links)"
proof -
  have parse: "calls_at_most Real_nmf 0 (cell_parse env links empty_notebook)"
    unfolding cell_parse_def parse_link_def
    by (intro at_most_zero) simp_all
  have writes: "calls_at_most Real_nmf 0 (cell_write nb)" for nb
    unfolding cell_write_def by (intro at_most_zero)
  have after: "calls_at_most Real_nmf 0 (after_nmf env nb)" for nb
    unfolding after_nmf_def cell_resnorm_def cell_top_words_def top_words_def
      cell_display_def cell_categories_def categorise_def
    by (intro at_most_zero) simp_all
  have "calls_at_most Real_nmf (1 + 0)
      (bind (ext Real_nmf (\<lambda>hist. real_nmf env hist (nb_a nb) 2 5842 (1 / 10 ^ 6) 500))
         (\<lambda>(w, h). ret (nb\<lparr>nb_w := w, nb_h := h\<rparr>)))" for nb
    by (intro at_most_bind at_most_ext at_most_case_prod at_most_ret)
  then have nmf: "calls_at_most Real_nmf (0 + 1) (cell_nmf env nb)" for nb
    unfolding cell_nmf_def
    by (intro at_most_bind at_most_lift) simp
  have "calls_at_most Real_nmf (0 + (0 + (0 + 1 + 0))) (nmf_notebook env links)"
    unfolding nmf_notebook_def
    by (intro at_most_bind parse writes nmf after)
  then show ?thesis by simp
qed

text \<open>
  Claim C2.  A collected word is kept exactly when it is no stop word, has at least
  four characters and starts neither with the pound sign nor with a decimal digit; the
  cleaned list is the collected list with the other words struck out, in the same
  order, so the cells change no word and add none.  For the set \<open>S\<close> of collected
  words, iterated in any order \<open>ws\<close>, the kept words are those of \<open>S\<close> that pass.
\<close>

theorem clean_words_keeps_exactly:
  "clean_words ws = filter kept_word ws \<and>
   (word \<in> set (clean_words ws) \<longleftrightarrow>
      word \<in> set ws \<and> word \<notin> set stopwords \<and> 4 \<le> length word \<and>
      \<not> starts_with_pound_or_digit word) \<and>
   subseq (clean_words ws) ws \<and>
   (iteration_of S ws \<longrightarrow>
      distinct (clean_words ws) \<and> set (clean_words ws) = {word \<in> S. kept_word word})"
proof -
  have "subseq (filter kept_word ws) ws" by simp
  then show ?thesis
    by (auto simp: clean_words_filter kept_word_def iteration_of_def)
qed

theorem clean_words_keeps_exactly_witness:
  "clean_words [ascii ''deal'', ascii ''then'', ascii ''the'', [163, 49, 48, 48, 48],
       ascii ''2019'', ascii ''brexit'']
     = [ascii ''deal'', ascii ''brexit''] \<and>
   iteration_of {ascii ''deal'', ascii ''2019''} [ascii ''deal'', ascii ''2019''] \<and>
   set (clean_words [ascii ''deal'', ascii ''2019'']) = {ascii ''deal''}"
proof -
  have k: "kept_word (ascii ''deal'')" "kept_word (ascii ''brexit'')"
    "\<not> kept_word (ascii ''then'')" "\<not> kept_word (ascii ''the'')"
    "\<not> kept_word [163, 49, 48, 48, 48]" "\<not> kept_word (ascii ''2019'')"
    by (simp_all add: kept_word_def stopwords_def starts_with_pound_or_digit_def ascii_def)
  have i: "iteration_of {ascii ''deal'', ascii ''2019''} [ascii ''deal'', ascii ''2019'']"
    by (simp add: iteration_of_def ascii_def)
  from clean_words_keeps_exactly [of "[ascii ''deal'', ascii ''then'', ascii ''the'',
      [163, 49, 48, 48, 48], ascii ''2019'', ascii ''brexit'']" "[]" "{}"]
    clean_words_keeps_exactly [of "[ascii ''deal'', ascii ''2019'']" "[]"
      "{ascii ''deal'', ascii ''2019''}"] i k
  show ?thesis by auto
qed

text \<open>
  Claim C1.  Take a run of the parsing cell that ends without an exception, and let
  \<open>pages\<close> be what the first download of each link returned.  Whatever the order in
  which Python iterates the set of collected words, the cleaned words are distinct and
  are the collected words that pass the filters; the data matrix has one row per
  cleaned word and one column per link, in the order of the links; and the entry of
  row \<open>i\<close> and column \<open>j\<close> is the number of occurrences of word \<open>i\<close> among the
  tokens extracted from page \<open>j\<close>, a natural number (zero when the word does not
  occur there).
\<close>

theorem data_matrix_counts:
  assumes "cell_parse env links nb0 hist = (hist', Inr nb)"
    and "iteration_of (nb_wordset nb) (set_iter env (nb_wordset nb))"
  shows "\<exists>pages. length pages = length links \<and>
      (\<forall>j<length links.
         urlopen_read_decode env (hist @ fetched (take j links)) (links ! j) = Inr (pages ! j)) \<and>
      (let nb' = cell_matrix (cell_count (cell_clean env nb)); ws = nb_words nb'; a = nb_a nb' in
         distinct ws \<and>
         set ws = {word \<in> (\<Union>page\<in>set pages. set (page_words env page)). kept_word word} \<and>
         length a = length ws \<and>
         (\<forall>i<length ws. length (a ! i) = length links \<and>
            (\<forall>j<length links.
               a ! i ! j = real (count_list (page_words env (pages ! j)) (ws ! i)) \<and>
               a ! i ! j \<in> \<nat>)))"
proof -
  from cell_parse_run [OF assms(1)] obtain pages where
    len: "length pages = length links"
    and fetch: "\<forall>j<length links.
         urlopen_read_decode env (hist @ fetched (take j links)) (links ! j) = Inr (pages ! j)"
    and dicts: "nb_dicts nb = map (\<lambda>page. Counter (page_words env page)) pages"
    and wordset: "nb_wordset nb = (\<Union>page\<in>set pages. set (page_words env page))"
    by blast
  define ws where "ws = clean_words (set_iter env (nb_wordset nb))"
  define nb' where "nb' = cell_matrix (cell_count (cell_clean env nb))"
  have ws: "nb_words nb' = ws" and a: "nb_a nb' = data_matrix ws (nb_dicts nb)"
    by (simp_all add: nb'_def ws_def cell_matrix_def cell_count_def cell_clean_def py_print_def Let_def)
  from assms(2) have d: "distinct ws"
    and s: "set ws = {word \<in> nb_wordset nb. kept_word word}"
    by (auto simp: ws_def clean_words_filter iteration_of_def)
  have rows: "data_matrix ws (nb_dicts nb)
      = map (\<lambda>word. map (\<lambda>dic. of_int (dict_get dic word 0)) (nb_dicts nb)) ws"
    using d by (rule data_matrix_rows)
  have entry: "data_matrix ws (nb_dicts nb) ! i ! j
      = real (count_list (page_words env (pages ! j)) (ws ! i))"
    if "i < length ws" "j < length links" for i j
    using that len unfolding rows by (simp add: dicts Counter_get)
  have "distinct ws \<and>
         set ws = {word \<in> (\<Union>page\<in>set pages. set (page_words env page)). kept_word word} \<and>
         length (data_matrix ws (nb_dicts nb)) = length ws \<and>
         (\<forall>i<length ws. length (data_matrix ws (nb_dicts nb) ! i) = length links \<and>
            (\<forall>j<length links.
               data_matrix ws (nb_dicts nb) ! i ! j
                 = real (count_list (page_words env (pages ! j)) (ws ! i)) \<and>
               data_matrix ws (nb_dicts nb) ! i ! j \<in> \<nat>))"
  proof -
    have "length (data_matrix ws (nb_dicts nb)) = length ws" unfolding rows by simp
    moreover have "length (data_matrix ws (nb_dicts nb) ! i) = length links"
      if "i < length ws" for i
      using that len unfolding rows by (simp add: dicts)
    ultimately show ?thesis using d s wordset entry by simp
  qed
  with len fetch show ?thesis
    unfolding nb'_def [symmetric] Let_def ws a by blast
qed

theorem data_matrix_counts_witness:
  "\<exists>hist nb.
     cell_parse demo_env demo_links empty_notebook [] = (hist, Inr nb) \<and>
     iteration_of (nb_wordset nb) (set_iter demo_env (nb_wordset nb)) \<and>
     nb_words (cell_matrix (cell_count (cell_clean demo_env nb)))
       = [ascii ''trump'', ascii ''brexit'', ascii ''deal''] \<and>
     nb_a (cell_matrix (cell_count (cell_clean demo_env nb))) = [[0, 1], [2, 0], [2, 1]] \<and>
     (\<exists>pages. length pages = length demo_links \<and>
      (\<forall>j<length demo_links.
         urlopen_read_decode demo_env ([] @ fetched (take j demo_links)) (demo_links ! j)
           = Inr (pages ! j)) \<and>
      (let nb' = cell_matrix (cell_count (cell_clean demo_env nb)); ws = nb_words nb';
           a = nb_a nb' in
         distinct ws \<and>
         set ws = {word \<in> (\<Union>page\<in>set pages. set (page_words demo_env page)). kept_word word} \<and>
         length a = length ws \<and>
         (\<forall>i<length ws. length (a ! i) = length demo_links \<and>
            (\<forall>j<length demo_links.
               a ! i ! j = real (count_list (page_words demo_env (pages ! j)) (ws ! i)) \<and>
               a ! i ! j \<in> \<nat>))))"
proof -
  from demo_parse obtain nb where
    run: "cell_parse demo_env demo_links empty_notebook [] = (fetched demo_links, Inr nb)"
    and dicts: "nb_dicts nb = [Counter (page_words demo_env (demo_page (ascii ''u1''))),
                    Counter (page_words demo_env (demo_page (ascii ''u2'')))]"
    and wordset: "nb_wordset nb = set (page_words demo_env (demo_page (ascii ''u1''))) \<union>
                     set (page_words demo_env (demo_page (ascii ''u2'')))"
    by blast
  have order: "set_iter demo_env S
      = [ascii ''trump'', ascii ''brexit'', ascii ''says'', ascii ''deal'', ascii ''no'']" for S
    by (simp add: demo_env_def)
  have it: "iteration_of (nb_wordset nb) (set_iter demo_env (nb_wordset nb))"
    unfolding order iteration_of_def wordset demo_page_words
    by (auto simp: ascii_def)
  have k: "kept_word (ascii ''trump'')" "kept_word (ascii ''brexit'')" "kept_word (ascii ''deal'')"
    "\<not> kept_word (ascii ''says'')" "\<not> kept_word (ascii ''no'')"
    by (simp_all add: kept_word_def stopwords_def starts_with_pound_or_digit_def ascii_def)
  have ws: "clean_words (set_iter demo_env (nb_wordset nb))
      = [ascii ''trump'', ascii ''brexit'', ascii ''deal'']"
    unfolding order clean_words_filter by (simp add: k)
  have words: "nb_words (cell_matrix (cell_count (cell_clean demo_env nb)))
      = [ascii ''trump'', ascii ''brexit'', ascii ''deal'']"
    by (simp add: cell_matrix_def cell_count_def cell_clean_def py_print_def Let_def ws)
  have "distinct [ascii ''trump'', ascii ''brexit'', ascii ''deal'']"
    by (simp add: ascii_def)
  from data_matrix_rows [OF this, of "nb_dicts nb"]
  have "data_matrix [ascii ''trump'', ascii ''brexit'', ascii ''deal''] (nb_dicts nb)
      = [[0, 1], [2, 0], [2, 1]]"
    unfolding dicts by (simp add: Counter_get demo_page_words) (simp add: ascii_def)
  then have a: "nb_a (cell_matrix (cell_count (cell_clean demo_env nb))) = [[0, 1], [2, 0], [2, 1]]"
    by (simp add: cell_matrix_def cell_count_def cell_clean_def py_print_def Let_def ws)
  note concl = data_matrix_counts [OF run it]
  show ?thesis
    apply (rule exI [where x = "fetched demo_links"])
    apply (rule exI [where x = nb])
    apply (intro conjI run it words a concl)
    done
qed

text \<open>
  Claim C5.  The translation table replaces each of the 32 ASCII punctuation
  characters by one space (code point 32) and leaves every other character; the words
  of a page are the white space separated pieces of its translated paragraphs, in
  order, and splitting loses nothing but white space.  Hence a counted token is not
  empty, holds no ASCII punctuation character and no white space, and is a piece of
  contiguous text of the lowercased page \<open>lowered\<close> whose paragraphs were found.
\<close>

theorem tokens_split_on_punctuation:
  "translate trans para = map (\<lambda>c. if c \<in> set punctuation then 32 else c) para \<and>
   pagewords paras = concat (map (\<lambda>para. py_split (translate trans para)) paras) \<and>
   concat (py_split s) = filter (\<lambda>c. \<not> py_isspace c) s \<and>
   (tok \<in> set (pagewords (findall_tag (ascii ''p'') lowered)) \<longrightarrow>
      tok \<noteq> [] \<and> (\<forall>c\<in>set tok. c \<notin> set punctuation \<and> \<not> py_isspace c) \<and>
      sublist tok lowered)"
proof -
  have "tok \<noteq> [] \<and> (\<forall>c\<in>set tok. c \<notin> set punctuation \<and> \<not> py_isspace c) \<and> sublist tok lowered"
    if "tok \<in> set (pagewords (findall_tag (ascii ''p'') lowered))"
  proof -
    from that obtain para where para: "para \<in> set (findall_tag (ascii ''p'') lowered)"
      and tok: "tok \<in> set (py_split (translate trans para))"
      by (auto simp: pagewords_concat)
    from tok have t: "sublist tok para" "tok \<noteq> []"
      "\<forall>c\<in>set tok. c \<notin> set punctuation \<and> \<not> py_isspace c"
      using token_of_translated by blast+
    from para have "sublist para lowered" by (rule findall_tag_sublist)
    with t(1) have "sublist tok lowered" using sublist_order.order.trans by blast
    with t show ?thesis by simp
  qed
  then show ?thesis
    by (simp add: translate_trans pagewords_concat concat_py_split)
qed

theorem tokens_split_on_punctuation_witness:
  "pagewords (findall_tag (ascii ''p'') (ascii ''<p>no-deal deal, no!</p>''))
     = [ascii ''no'', ascii ''deal'', ascii ''deal'', ascii ''no''] \<and>
   sublist (ascii ''deal'') (ascii ''<p>no-deal deal, no!</p>'') \<and>
   set (ascii ''deal'') \<inter> set punctuation = {}"
proof -
  have eq: "pagewords (findall_tag (ascii ''p'') (ascii ''<p>no-deal deal, no!</p>''))
      = [ascii ''no'', ascii ''deal'', ascii ''deal'', ascii ''no'']"
    by (simp add: pagewords_def ascii_def translate_def trans_apply py_split_def
        py_isspace_def punctuation_def)
  then have "ascii ''deal'' \<in> set (pagewords (findall_tag (ascii ''p'')
      (ascii ''<p>no-deal deal, no!</p>'')))"
    by simp
  with tokens_split_on_punctuation [of "[]" "[]" "[]" "ascii ''deal''"
      "ascii ''<p>no-deal deal, no!</p>''"] eq
  show ?thesis by blast
qed

text \<open>
  Claim C3, as amended.  The classification notebook, the cone programming notebook,
  the cell that draws the input data of the implied volatility notebook and the cells
  that call \<open>opt_imp_vol\<close> perform no recovery: in every run, an external call that
  raises is the last call, and its exception is the result of the run.  The root
  finder demonstration of the implied volatility notebook does recover.  Its loop,
  for input arrays of at least \<open>n\<close> entries, ends without an exception after \<open>n\<close>
  calls of the root finder, whatever these calls raise, and \<open>errorcount\<close> is at
  least the number of calls that raised and at most \<open>n\<close>.  Its callback, given the
  five entries, turns an exception of the price routine into the value of a zero
  price.
\<close>

theorem exceptions_of_calls:
  "propagates (nmf_notebook env links) \<and>
   propagates (socp_notebook senv) \<and>
   propagates (draw_cell ienv m) \<and>
   propagates (imp_vol_cell ienv mode p k s0 t r) \<and>
   (n \<le> length p \<and> n \<le> length k \<and> n \<le> length s0 \<and> n \<le> length t \<and> n \<le> length r \<longrightarrow>
      (\<exists>new data errorcount.
         root_finder_cell ienv n p k s0 t r hist = (hist @ new, Inr (data, errorcount)) \<and>
         map fst new = replicate n Contfn_cntin \<and>
         int (length (filter (\<lambda>ev. snd ev \<noteq> None) new)) \<le> errorcount \<and>
         errorcount \<le> int n)) \<and>
   (d ''k'' = Some strike \<and> d ''s0'' = Some spot \<and> d ''t'' = Some expiry \<and>
    d ''r'' = Some rate \<and> d ''p'' = Some price \<and>
    opt_bsm_price ienv ''C'' [strike] spot [expiry] sigma rate 0 = Inl e \<longrightarrow>
      black_scholes ienv sigma d = Inr (0 - price))"
proof -
  have 5: "(n \<le> length p \<and> n \<le> length k \<and> n \<le> length s0 \<and> n \<le> length t \<and> n \<le> length r \<longrightarrow>
      (\<exists>new data errorcount.
         root_finder_cell ienv n p k s0 t r hist = (hist @ new, Inr (data, errorcount)) \<and>
         map fst new = replicate n Contfn_cntin \<and>
         int (length (filter (\<lambda>ev. snd ev \<noteq> None) new)) \<le> errorcount \<and>
         errorcount \<le> int n))"
    using root_finder_cell_returns [of n p k s0 t r ienv hist] by blast
  have 6: "(d ''k'' = Some strike \<and> d ''s0'' = Some spot \<and> d ''t'' = Some expiry \<and>
    d ''r'' = Some rate \<and> d ''p'' = Some price \<and>
    opt_bsm_price ienv ''C'' [strike] spot [expiry] sigma rate 0 = Inl e \<longrightarrow>
      black_scholes ienv sigma d = Inr (0 - price))"
    by (simp add: black_scholes_def dict_item_def nd_get_def Let_def)
  show ?thesis
    by (intro conjI propagates_nmf_notebook propagates_socp_notebook propagates_draw_cell
        propagates_imp_vol_cell 5 6)
qed

lemma failing_web_run:
  "nmf_notebook failing_web_env demo_links []
     = ([(Urlopen (ascii ''u1''), None), (Urlopen (ascii ''u1''), Some (LibraryError 404))],
        Inl (LibraryError 404))"
  by (simp add: nmf_notebook_def cell_parse_def parse_link_def bind_def ext_def outcome_def
      Let_def failing_web_env_def demo_links_def)

lemma failing_socp_run:
  "socp_notebook failing_socp_env []
     = ([(Handle_init, None), (Handle_set_linobj, Some (LibraryError 3))],
        Inl (LibraryError 3))"
  by (simp add: socp_notebook_def bind_def ext_def outcome_def Let_def
      failing_socp_env_def demo_socp_env_def)

lemma demo_root_finder_fails:
  "\<exists>data. root_finder_cell demo_iv_env 1 [5] [272] [9] [1 / 60] [1 / 50] []
     = ([(Contfn_cntin, Some (LibraryError 7))], Inr (data, 1))"
  by (simp add: root_finder_cell_def root_finder_step_def py_get_def try_except_def bind_def
      ext_def ret_def lift_def outcome_def Let_def demo_iv_env_def black_scholes_def
      dict_item_def nd_get_def)

theorem exceptions_of_calls_witness:
  "nmf_notebook failing_web_env demo_links []
     = ([(Urlopen (ascii ''u1''), None), (Urlopen (ascii ''u1''), Some (LibraryError 404))],
        Inl (LibraryError 404)) \<and>
   no_recovery [(Urlopen (ascii ''u1''), None), (Urlopen (ascii ''u1''), Some (LibraryError 404))]
     (Inl (LibraryError 404) :: exn + notebook) \<and>
   socp_notebook failing_socp_env []
     = ([(Handle_init, None), (Handle_set_linobj, Some (LibraryError 3))],
        Inl (LibraryError 3)) \<and>
   no_recovery [(Handle_init, None), (Handle_set_linobj, Some (LibraryError 3))]
     (Inl (LibraryError 3) :: exn + real list \<times> real) \<and>
   (1 :: nat) \<le> length [5 :: real] \<and>
   (\<exists>new data errorcount.
      root_finder_cell demo_iv_env 1 [5] [272] [9] [1 / 60] [1 / 50] []
        = ([] @ new, Inr (data, errorcount)) \<and>
      map fst new = replicate 1 Contfn_cntin \<and>
      int (length (filter (\<lambda>ev. snd ev \<noteq> None) new)) \<le> errorcount \<and>
      errorcount \<le> int 1) \<and>
   opt_bsm_price demo_iv_env ''C'' [272] 0 [1 / 60] (15 / 100) (1 / 50) 0 = Inl (LibraryError 1) \<and>
   black_scholes demo_iv_env (15 / 100) (demo_data 0) = Inr (0 - 5)"
proof -
  note t = exceptions_of_calls [of failing_web_env demo_links failing_socp_env demo_iv_env 2
      0 "[5]" "[272]" "[9]" "[1 / 60]" "[1 / 50]" 1 "[]"
      "demo_data 0" 272 0 "1 / 60" "1 / 50" 5 "15 / 100" "LibraryError 1"]
  from t [THEN conjunct1] have "propagates (nmf_notebook failing_web_env demo_links)" .
  then obtain new where "fst (nmf_notebook failing_web_env demo_links []) = [] @ new"
    "no_recovery new (snd (nmf_notebook failing_web_env demo_links []))"
    unfolding propagates_def by blast
  then have 1: "no_recovery [(Urlopen (ascii ''u1''), None),
      (Urlopen (ascii ''u1''), Some (LibraryError 404))] (Inl (LibraryError 404) :: exn + notebook)"
    unfolding failing_web_run by simp
  from t [THEN conjunct2, THEN conjunct1] have "propagates (socp_notebook failing_socp_env)" .
  then obtain new where "fst (socp_notebook failing_socp_env []) = [] @ new"
    "no_recovery new (snd (socp_notebook failing_socp_env []))"
    unfolding propagates_def by blast
  then have 2: "no_recovery [(Handle_init, None), (Handle_set_linobj, Some (LibraryError 3))]
      (Inl (LibraryError 3) :: exn + real list \<times> real)"
    unfolding failing_socp_run by simp
  have 3: "(1 :: nat) \<le> length [5 :: real]" by simp
  from t [THEN conjunct2, THEN conjunct2, THEN conjunct2, THEN conjunct2, THEN conjunct1]
  have 4: "\<exists>new data errorcount.
      root_finder_cell demo_iv_env 1 [5] [272] [9] [1 / 60] [1 / 50] []
        = ([] @ new, Inr (data, errorcount)) \<and>
      map fst new = replicate 1 Contfn_cntin \<and>
      int (length (filter (\<lambda>ev. snd ev \<noteq> None) new)) \<le> errorcount \<and>
      errorcount \<le> int 1"
    by simp
  have d: "demo_data 0 ''k'' = Some 272 \<and> demo_data 0 ''s0'' = Some 0 \<and>
    demo_data 0 ''t'' = Some (1 / 60) \<and> demo_data 0 ''r'' = Some (1 / 50) \<and>
    demo_data 0 ''p'' = Some 5"
    by (simp add: demo_data_def)
  have 5: "opt_bsm_price demo_iv_env ''C'' [272] 0 [1 / 60] (15 / 100) (1 / 50) 0
      = Inl (LibraryError 1)"
    by (simp add: demo_iv_env_def)
  from t [THEN conjunct2, THEN conjunct2, THEN conjunct2, THEN conjunct2, THEN conjunct2] d 5
  have 6: "black_scholes demo_iv_env (15 / 100) (demo_data 0) = Inr (0 - 5)"
    by blast
  show ?thesis by (intro conjI failing_web_run failing_socp_run 1 2 3 4 5 6)
qed

text \<open>
  The claim as it stands fails on the root finder loop: with one data point on which
  the root finder raises, the exception is not the result of the run; the loop ends
  normally with \<open>errorcount = 1\<close>.
\<close>

theorem exceptions_of_calls_counterexample:
  "(\<exists>data. root_finder_cell demo_iv_env 1 [5] [272] [9] [1 / 60] [1 / 50] []
      = ([(Contfn_cntin, Some (LibraryError 7))], Inr (data, 1))) \<and>
   \<not> propagates (root_finder_cell demo_iv_env 1 [5] [272] [9] [1 / 60] [1 / 50])"
proof -
  from demo_root_finder_fails obtain data where
    run: "root_finder_cell demo_iv_env 1 [5] [272] [9] [1 / 60] [1 / 50] []
      = ([(Contfn_cntin, Some (LibraryError 7))], Inr (data, 1))"
    by blast
  have "\<not> propagates (root_finder_cell demo_iv_env 1 [5] [272] [9] [1 / 60] [1 / 50])"
  proof
    assume "propagates (root_finder_cell demo_iv_env 1 [5] [272] [9] [1 / 60] [1 / 50])"
    then obtain new where
      "fst (root_finder_cell demo_iv_env 1 [5] [272] [9] [1 / 60] [1 / 50] []) = [] @ new"
      "no_recovery new (snd (root_finder_cell demo_iv_env 1 [5] [272] [9] [1 / 60] [1 / 50] []))"
      unfolding propagates_def by blast
    then have "no_recovery [(Contfn_cntin, Some (LibraryError 7))]
        (Inr (data, 1) :: exn + bs_data \<times> int)"
      unfolding run by simp
    then have "\<forall>i<length [(Contfn_cntin, Some (LibraryError 7))]. \<forall>e.
        snd ([(Contfn_cntin, Some (LibraryError 7))] ! i) = Some e \<longrightarrow>
        Suc i = length [(Contfn_cntin, Some (LibraryError 7))] \<and>
        (Inr (data, 1) :: exn + bs_data \<times> int) = Inl e"
      unfolding no_recovery_def .
    from this [rule_format, of 0 "LibraryError 7"] show False by simp
  qed
  with demo_root_finder_fails show ?thesis by blast
qed




text \<open>
  Claim C4, as amended.  In every run of the classification notebook \<open>real_nmf\<close> is
  called at most once, and a run of the factorization cell and the cells after it that
  ends normally makes one call of \<open>real_nmf\<close> followed by the NumPy, SciPy and pandas
  calls of the residual norm and of the display.  A normal run of the cone programming
  notebook makes ten library calls, of which one is the solver, after the calls that
  build the problem.  A cell of the implied volatility notebook that calls
  \<open>opt_imp_vol\<close> makes that one call.  The root finder demonstration is different:
  it calls the root finder once per data point, \<open>n\<close> times in all.
\<close>

theorem results_from_library_calls:
  "(\<exists>new. fst (nmf_notebook env links hist) = hist @ new \<and> calls_of Real_nmf new \<le> 1) \<and>
   (bind (cell_nmf env nb) (after_nmf env) hist = (hist1, Inr nb1) \<longrightarrow>
      hist1 = hist @ map (\<lambda>c. (c, None))
        [Real_nmf, Np_matmul, Np_subtract, Scipy_norm, Scipy_norm, Pd_DataFrame,
         Pd_set_option]) \<and>
   (socp_notebook senv hist = (hist2, Inr res) \<longrightarrow>
      hist2 = hist @ map (\<lambda>c. (c, None))
        [Handle_init, Handle_set_linobj, Handle_set_simplebounds, Handle_set_linconstr,
         Handle_set_group, Handle_opt_set, Handle_opt_set, FileObjManager,
         Handle_solve_socp_ipm, Handle_free]) \<and>
   (imp_vol_cell ienv mode p k s0 t r hist = (hist3, Inr out) \<longrightarrow>
      hist3 = hist @ [(Opt_imp_vol mode, None)]) \<and>
   (n \<le> length p \<and> n \<le> length k \<and> n \<le> length s0 \<and> n \<le> length t \<and> n \<le> length r \<longrightarrow>
      (\<exists>new data errorcount.
         root_finder_cell ienv n p k s0 t r hist = (hist @ new, Inr (data, errorcount)) \<and>
         map fst new = replicate n Contfn_cntin \<and> calls_of Contfn_cntin new = n))"
proof -
  have 1: "\<exists>new. fst (nmf_notebook env links hist) = hist @ new \<and> calls_of Real_nmf new \<le> 1"
    using real_nmf_at_most_once [of env links] unfolding calls_at_most_def by blast
  have 2: "hist1 = hist @ map (\<lambda>c. (c, None))
        [Real_nmf, Np_matmul, Np_subtract, Scipy_norm, Scipy_norm, Pd_DataFrame,
         Pd_set_option]"
    if "bind (cell_nmf env nb) (after_nmf env) hist = (hist1, Inr nb1)"
  proof -
    from that obtain h nb' where
      a: "cell_nmf env nb hist = (h, Inr nb')" and b: "after_nmf env nb' h = (hist1, Inr nb1)"
      unfolding bind_run by blast
    from cell_nmf_run [OF a] after_nmf_history [OF b] show ?thesis by simp
  qed
  have 5: "\<exists>new data errorcount.
         root_finder_cell ienv n p k s0 t r hist = (hist @ new, Inr (data, errorcount)) \<and>
         map fst new = replicate n Contfn_cntin \<and> calls_of Contfn_cntin new = n"
    if "n \<le> length p \<and> n \<le> length k \<and> n \<le> length s0 \<and> n \<le> length t \<and> n \<le> length r"
  proof -
    from that root_finder_cell_returns [of n p k s0 t r ienv hist] obtain new data errorcount
      where run: "root_finder_cell ienv n p k s0 t r hist = (hist @ new, Inr (data, errorcount))"
        and new: "map fst new = replicate n Contfn_cntin"
      by blast
    have "\<forall>ev\<in>set new. fst ev = Contfn_cntin"
    proof
      fix ev assume "ev \<in> set new"
      then have "fst ev \<in> set (map fst new)" by simp
      then show "fst ev = Contfn_cntin" unfolding new by simp
    qed
    then have "filter (\<lambda>ev. fst ev = Contfn_cntin) new = new" by simp
    moreover from new have "length new = n" by (metis length_map length_replicate)
    ultimately have "calls_of Contfn_cntin new = n" by (simp add: calls_of_def)
    with run new show ?thesis by blast
  qed
  show ?thesis
    using 1 2 5 socp_notebook_history [of senv hist hist2 res]
      imp_vol_cell_history [of ienv mode p k s0 t r hist hist3 out]
    by (intro conjI impI) assumption+
qed

lemma demo_socp_run:
  "socp_notebook demo_socp_env []
     = (map (\<lambda>c. (c, None))
        [Handle_init, Handle_set_linobj, Handle_set_simplebounds, Handle_set_linconstr,
         Handle_set_group, Handle_opt_set, Handle_opt_set, FileObjManager,
         Handle_solve_socp_ipm, Handle_free], Inr ([- 1, 0, 1], - 19))"
  by (simp add: socp_notebook_def bind_def ext_def ret_def lift_def outcome_def Let_def
      demo_socp_env_def py_get_def)

lemma demo_imp_vol_run:
  "imp_vol_cell demo_iv_env 2 [5] [272] [5] [1 / 60] [1 / 50] []
     = ([(Opt_imp_vol 2, None)], Inr ([2 / 10], [0], 0))"
  by (simp add: imp_vol_cell_def bind_def ext_def ret_def outcome_def Let_def demo_iv_env_def)

lemma demo_root_finder_two:
  "\<exists>data. root_finder_cell demo_iv_env 2 [5, 5] [272, 272] [5, 5] [1 / 60, 1 / 60]
       [1 / 50, 1 / 50] []
     = ([(Contfn_cntin, None), (Contfn_cntin, None)], Inr (data, 0))"
proof -
  have u: "[0..<2] = [0, Suc 0]" by (simp add: numeral_2_eq_2)
  show ?thesis
    by (simp add: root_finder_cell_def root_finder_step_def py_get_def try_except_def bind_def
      ext_def ret_def lift_def outcome_def Let_def demo_iv_env_def black_scholes_def
      dict_item_def nd_get_def u)
qed

theorem results_from_library_calls_witness:
  "(\<exists>hist1 nb1. bind (cell_nmf demo_env demo_parsed) (after_nmf demo_env) [] = (hist1, Inr nb1) \<and>
      hist1 = [] @ map (\<lambda>c. (c, None))
        [Real_nmf, Np_matmul, Np_subtract, Scipy_norm, Scipy_norm, Pd_DataFrame,
         Pd_set_option]) \<and>
   socp_notebook demo_socp_env []
     = ([] @ map (\<lambda>c. (c, None))
        [Handle_init, Handle_set_linobj, Handle_set_simplebounds, Handle_set_linconstr,
         Handle_set_group, Handle_opt_set, Handle_opt_set, FileObjManager,
         Handle_solve_socp_ipm, Handle_free], Inr ([- 1, 0, 1], - 19)) \<and>
   imp_vol_cell demo_iv_env 2 [5] [272] [5] [1 / 60] [1 / 50] []
     = ([] @ [(Opt_imp_vol 2, None)], Inr ([2 / 10], [0], 0)) \<and>
   (2 :: nat) \<le> length [5, 5 :: real] \<and>
   (\<exists>new data errorcount.
      root_finder_cell demo_iv_env 2 [5, 5] [272, 272] [5, 5] [1 / 60, 1 / 60] [1 / 50, 1 / 50] []
        = ([] @ new, Inr (data, errorcount)) \<and>
      map fst new = replicate 2 Contfn_cntin \<and> calls_of Contfn_cntin new = 2)"
proof -
  from demo_run obtain hist1 nb1 where
    run: "bind (cell_nmf demo_env demo_parsed) (after_nmf demo_env) [] = (hist1, Inr nb1)"
    by blast
  note t = results_from_library_calls [of demo_env "[]" "[]" demo_parsed hist1 nb1
      demo_socp_env
      "map (\<lambda>c. (c, None))
        [Handle_init, Handle_set_linobj, Handle_set_simplebounds, Handle_set_linconstr,
         Handle_set_group, Handle_opt_set, Handle_opt_set, FileObjManager,
         Handle_solve_socp_ipm, Handle_free]" "([- 1, 0, 1], - 19)"
      demo_iv_env 2 "[5, 5]" "[272, 272]" "[5, 5]" "[1 / 60, 1 / 60]" "[1 / 50, 1 / 50]"
      "[(Contfn_cntin, None), (Contfn_cntin, None)]" "([], [], 0)" 2]
  from t run have h1: "hist1 = [] @ map (\<lambda>c. (c, None))
        [Real_nmf, Np_matmul, Np_subtract, Scipy_norm, Scipy_norm, Pd_DataFrame,
         Pd_set_option]"
    by blast
  have 1: "\<exists>hist1 nb1. bind (cell_nmf demo_env demo_parsed) (after_nmf demo_env) [] = (hist1, Inr nb1) \<and>
      hist1 = [] @ map (\<lambda>c. (c, None))
        [Real_nmf, Np_matmul, Np_subtract, Scipy_norm, Scipy_norm, Pd_DataFrame,
         Pd_set_option]"
    using run h1 by blast
  have 2: "socp_notebook demo_socp_env []
     = ([] @ map (\<lambda>c. (c, None))
        [Handle_init, Handle_set_linobj, Handle_set_simplebounds, Handle_set_linconstr,
         Handle_set_group, Handle_opt_set, Handle_opt_set, FileObjManager,
         Handle_solve_socp_ipm, Handle_free], Inr ([- 1, 0, 1], - 19))"
    using demo_socp_run by simp
  have 3: "imp_vol_cell demo_iv_env 2 [5] [272] [5] [1 / 60] [1 / 50] []
     = ([] @ [(Opt_imp_vol 2, None)], Inr ([2 / 10], [0], 0))"
    using demo_imp_vol_run by simp
  have 4: "(2 :: nat) \<le> length [5, 5 :: real]" by simp
  from t have 5: "\<exists>new data errorcount.
      root_finder_cell demo_iv_env 2 [5, 5] [272, 272] [5, 5] [1 / 60, 1 / 60] [1 / 50, 1 / 50] []
        = ([] @ new, Inr (data, errorcount)) \<and>
      map fst new = replicate 2 Contfn_cntin \<and> calls_of Contfn_cntin new = 2"
    by simp
  show ?thesis by (intro conjI 1 2 3 4 5)
qed

text \<open>
  The claim as it stands fails on the root finder demonstration: two data points take
  two calls of the root finder, not one.
\<close>

theorem results_from_library_calls_counterexample:
  "(\<exists>data. root_finder_cell demo_iv_env 2 [5, 5] [272, 272] [5, 5] [1 / 60, 1 / 60]
       [1 / 50, 1 / 50] []
     = ([(Contfn_cntin, None), (Contfn_cntin, None)], Inr (data, 0))) \<and>
   calls_of Contfn_cntin [(Contfn_cntin, None), (Contfn_cntin, None)] = 2 \<and>
   calls_of Contfn_cntin [(Contfn_cntin, None), (Contfn_cntin, None)] \<noteq> 1"
  using demo_root_finder_two by (simp add: calls_of_def)

text \<open>
  Claim C7.  Each of the cells that follow the factorization, the residual norm, the
  lists of the most important words, the display of \<open>h\<close> and the categories, leaves
  the data matrix \<open>a\<close> and the factors \<open>w\<close> and \<open>h\<close> as they are, whenever it ends
  without an exception.  Hence at the end of a run of the factorization cell and the
  cells after it, \<open>w\<close> and \<open>h\<close> are what \<open>real_nmf\<close> returned for the data matrix,
  and the table displayed is \<open>h\<close> under the fifteen column labels.
\<close>

theorem factors_only_read:
  assumes "bind (cell_nmf env nb) (after_nmf env) hist = (hist', Inr nb')"
  shows "real_nmf env hist (nb_a nb) 2 5842 (1 / 10 ^ 6) 500 = Inr (nb_w nb', nb_h nb') \<and>
    nb_a nb' = nb_a nb \<and>
    nb_display_h nb' = Some (Out_frame link_columns (nb_h nb')) \<and>
    (\<forall>s h1 h2 s'. cell_resnorm env s h1 = (h2, Inr s') \<longrightarrow>
       nb_a s' = nb_a s \<and> nb_w s' = nb_w s \<and> nb_h s' = nb_h s) \<and>
    (\<forall>s h1 h2 s'. cell_top_words s h1 = (h2, Inr s') \<longrightarrow>
       nb_a s' = nb_a s \<and> nb_w s' = nb_w s \<and> nb_h s' = nb_h s) \<and>
    (\<forall>s h1 h2 s'. cell_display env s h1 = (h2, Inr s') \<longrightarrow>
       nb_a s' = nb_a s \<and> nb_w s' = nb_w s \<and> nb_h s' = nb_h s) \<and>
    (\<forall>s h1 h2 s'. cell_categories s h1 = (h2, Inr s') \<longrightarrow>
       nb_a s' = nb_a s \<and> nb_w s' = nb_w s \<and> nb_h s' = nb_h s)"
proof -
  from assms obtain hist1 nb1 where
    1: "cell_nmf env nb hist = (hist1, Inr nb1)"
    and 2: "after_nmf env nb1 hist1 = (hist', Inr nb')"
    unfolding bind_run by blast
  from cell_nmf_run [OF 1] after_nmf_frame [OF 2]
  have "real_nmf env hist (nb_a nb) 2 5842 (1 / 10 ^ 6) 500 = Inr (nb_w nb', nb_h nb') \<and>
    nb_a nb' = nb_a nb \<and> nb_display_h nb' = Some (Out_frame link_columns (nb_h nb'))"
    by (simp add: factors_def)
  moreover have "\<forall>s h1 h2 s'. cell_resnorm env s h1 = (h2, Inr s') \<longrightarrow>
       nb_a s' = nb_a s \<and> nb_w s' = nb_w s \<and> nb_h s' = nb_h s"
    using cell_resnorm_frame by (simp add: factors_def)
  moreover have "\<forall>s h1 h2 s'. cell_top_words s h1 = (h2, Inr s') \<longrightarrow>
       nb_a s' = nb_a s \<and> nb_w s' = nb_w s \<and> nb_h s' = nb_h s"
    using cell_top_words_frame by (simp add: factors_def)
  moreover have "\<forall>s h1 h2 s'. cell_display env s h1 = (h2, Inr s') \<longrightarrow>
       nb_a s' = nb_a s \<and> nb_w s' = nb_w s \<and> nb_h s' = nb_h s"
    using cell_display_frame by (simp add: factors_def)
  moreover have "\<forall>s h1 h2 s'. cell_categories s h1 = (h2, Inr s') \<longrightarrow>
       nb_a s' = nb_a s \<and> nb_w s' = nb_w s \<and> nb_h s' = nb_h s"
    using cell_categories_frame by (simp add: factors_def)
  ultimately show ?thesis by (intro conjI) simp_all
qed

theorem factors_only_read_witness:
  "\<exists>hist' nb'.
     bind (cell_nmf demo_env demo_parsed) (after_nmf demo_env) [] = (hist', Inr nb') \<and>
     nb_w nb' = [[1, 2]] \<and>
     nb_h nb' = [replicate 15 2, 1 # replicate 14 2] \<and>
     nb_a nb' = [replicate 15 1] \<and>
     nb_display_h nb' = Some (Out_frame link_columns [replicate 15 2, 1 # replicate 14 2])"
proof -
  from demo_run obtain hist' nb' where
    run: "bind (cell_nmf demo_env demo_parsed) (after_nmf demo_env) [] = (hist', Inr nb')"
    by blast
  from factors_only_read [OF run]
  have r: "real_nmf demo_env [] (nb_a demo_parsed) 2 5842 (1 / 10 ^ 6) 500 = Inr (nb_w nb', nb_h nb')"
    and a: "nb_a nb' = nb_a demo_parsed"
    and d: "nb_display_h nb' = Some (Out_frame link_columns (nb_h nb'))"
    by blast+
  from r have w: "nb_w nb' = [[1, 2]]" and h: "nb_h nb' = [replicate 15 2, 1 # replicate 14 2]"
    by (simp_all add: demo_env_def demo_parsed_def empty_notebook_def)
  from a have a': "nb_a nb' = [replicate 15 1]"
    by (simp add: demo_parsed_def empty_notebook_def)
  from d h have d': "nb_display_h nb'
      = Some (Out_frame link_columns [replicate 15 2, 1 # replicate 14 2])"
    by simp
  show ?thesis
    apply (rule exI [where x = hist'])
    apply (rule exI [where x = nb'])
    apply (intro conjI run w h a' d')
    done
qed

text \<open>
  Claim C8.  Where the communication object holds the five entries and the price
  routine raises an exception, whichever it is, the callback does not raise it: it
  returns zero minus the target price \<open>p\<close>, which is what it returns when the price
  routine returns a zero price.  The root finder loop hands this callback and the
  five entries of the data point to the root finder, so that at a volatility at which
  the price routine raises the root finder is given minus the target price and no
  exception; the loop then goes by what the root finder returns.
\<close>

theorem black_scholes_swallows:
  "(d ''k'' = Some k \<and> d ''s0'' = Some s0 \<and> d ''t'' = Some t \<and> d ''r'' = Some r \<and>
    d ''p'' = Some p \<and> opt_bsm_price env ''C'' [k] s0 [t] sigma r 0 = Inl e \<longrightarrow>
      black_scholes env sigma d = Inr (0 - p) \<and>
      black_scholes env sigma d \<noteq> Inl e \<and>
      black_scholes env sigma d
        = black_scholes (env\<lparr>opt_bsm_price := \<lambda>calput k s0 t sigma r q. Inr [[0]]\<rparr>) sigma d) \<and>
   (i < length ps \<and> i < length ks \<and> i < length s0s \<and> i < length ts \<and> i < length rs \<longrightarrow>
      root_finder_step env ps ks s0s ts rs i (data, ec) hist
        = (hist @ [(Contfn_cntin, outcome (contfn_cntin env hist (15 / 100) (black_scholes env) (1 / 10 ^ 14) 0 500
            (data(''p'' \<mapsto> ps ! i, ''k'' \<mapsto> ks ! i, ''s0'' \<mapsto> s0s ! i, ''t'' \<mapsto> ts ! i, ''r'' \<mapsto> rs ! i))))],
           Inr (case contfn_cntin env hist (15 / 100) (black_scholes env) (1 / 10 ^ 14) 0 500
            (data(''p'' \<mapsto> ps ! i, ''k'' \<mapsto> ks ! i, ''s0'' \<mapsto> s0s ! i, ''t'' \<mapsto> ts ! i, ''r'' \<mapsto> rs ! i)) of
              Inl e \<Rightarrow> ((data(''p'' \<mapsto> ps ! i, ''k'' \<mapsto> ks ! i, ''s0'' \<mapsto> s0s ! i, ''t'' \<mapsto> ts ! i, ''r'' \<mapsto> rs ! i)), ec + 1)
            | Inr vol \<Rightarrow> ((data(''p'' \<mapsto> ps ! i, ''k'' \<mapsto> ks ! i, ''s0'' \<mapsto> s0s ! i, ''t'' \<mapsto> ts ! i, ''r'' \<mapsto> rs ! i)), if vol < 0 then ec + 1 else ec))) \<and>
      (\<forall>x e. opt_bsm_price env ''C'' [ks ! i] (s0s ! i) [ts ! i] x (rs ! i) 0 = Inl e \<longrightarrow>
         black_scholes env x
            (data(''p'' \<mapsto> ps ! i, ''k'' \<mapsto> ks ! i, ''s0'' \<mapsto> s0s ! i, ''t'' \<mapsto> ts ! i, ''r'' \<mapsto> rs ! i))
           = Inr (0 - ps ! i)))"
proof -
  have 1: "(d ''k'' = Some k \<and> d ''s0'' = Some s0 \<and> d ''t'' = Some t \<and> d ''r'' = Some r \<and>
    d ''p'' = Some p \<and> opt_bsm_price env ''C'' [k] s0 [t] sigma r 0 = Inl e \<longrightarrow>
      black_scholes env sigma d = Inr (0 - p) \<and>
      black_scholes env sigma d \<noteq> Inl e \<and>
      black_scholes env sigma d
        = black_scholes (env\<lparr>opt_bsm_price := \<lambda>calput k s0 t sigma r q. Inr [[0]]\<rparr>) sigma d)"
    by (simp add: black_scholes_def dict_item_def nd_get_def Let_def)
  have 2: "(i < length ps \<and> i < length ks \<and> i < length s0s \<and> i < length ts \<and> i < length rs \<longrightarrow>
      root_finder_step env ps ks s0s ts rs i (data, ec) hist
        = (hist @ [(Contfn_cntin, outcome (contfn_cntin env hist (15 / 100) (black_scholes env) (1 / 10 ^ 14) 0 500
            (data(''p'' \<mapsto> ps ! i, ''k'' \<mapsto> ks ! i, ''s0'' \<mapsto> s0s ! i, ''t'' \<mapsto> ts ! i, ''r'' \<mapsto> rs ! i))))],
           Inr (case contfn_cntin env hist (15 / 100) (black_scholes env) (1 / 10 ^ 14) 0 500
            (data(''p'' \<mapsto> ps ! i, ''k'' \<mapsto> ks ! i, ''s0'' \<mapsto> s0s ! i, ''t'' \<mapsto> ts ! i, ''r'' \<mapsto> rs ! i)) of
              Inl e \<Rightarrow> ((data(''p'' \<mapsto> ps ! i, ''k'' \<mapsto> ks ! i, ''s0'' \<mapsto> s0s ! i, ''t'' \<mapsto> ts ! i, ''r'' \<mapsto> rs ! i)), ec + 1)
            | Inr vol \<Rightarrow> ((data(''p'' \<mapsto> ps ! i, ''k'' \<mapsto> ks ! i, ''s0'' \<mapsto> s0s ! i, ''t'' \<mapsto> ts ! i, ''r'' \<mapsto> rs ! i)), if vol < 0 then ec + 1 else ec))) \<and>
      (\<forall>x e. opt_bsm_price env ''C'' [ks ! i] (s0s ! i) [ts ! i] x (rs ! i) 0 = Inl e \<longrightarrow>
         black_scholes env x
            (data(''p'' \<mapsto> ps ! i, ''k'' \<mapsto> ks ! i, ''s0'' \<mapsto> s0s ! i, ''t'' \<mapsto> ts ! i, ''r'' \<mapsto> rs ! i))
           = Inr (0 - ps ! i)))"
  proof (intro impI conjI)
    assume i: "i < length ps \<and> i < length ks \<and> i < length s0s \<and> i < length ts \<and> i < length rs"
    then show "root_finder_step env ps ks s0s ts rs i (data, ec) hist
        = (hist @ [(Contfn_cntin, outcome (contfn_cntin env hist (15 / 100) (black_scholes env) (1 / 10 ^ 14) 0 500
            (data(''p'' \<mapsto> ps ! i, ''k'' \<mapsto> ks ! i, ''s0'' \<mapsto> s0s ! i, ''t'' \<mapsto> ts ! i, ''r'' \<mapsto> rs ! i))))],
           Inr (case contfn_cntin env hist (15 / 100) (black_scholes env) (1 / 10 ^ 14) 0 500
            (data(''p'' \<mapsto> ps ! i, ''k'' \<mapsto> ks ! i, ''s0'' \<mapsto> s0s ! i, ''t'' \<mapsto> ts ! i, ''r'' \<mapsto> rs ! i)) of
              Inl e \<Rightarrow> ((data(''p'' \<mapsto> ps ! i, ''k'' \<mapsto> ks ! i, ''s0'' \<mapsto> s0s ! i, ''t'' \<mapsto> ts ! i, ''r'' \<mapsto> rs ! i)), ec + 1)
            | Inr vol \<Rightarrow> ((data(''p'' \<mapsto> ps ! i, ''k'' \<mapsto> ks ! i, ''s0'' \<mapsto> s0s ! i, ''t'' \<mapsto> ts ! i, ''r'' \<mapsto> rs ! i)), if vol < 0 then ec + 1 else ec)))"
      using root_finder_step_run [of i ps ks s0s ts rs env data ec hist] by simp
    show "\<forall>x e. opt_bsm_price env ''C'' [ks ! i] (s0s ! i) [ts ! i] x (rs ! i) 0 = Inl e \<longrightarrow>
         black_scholes env x
            (data(''p'' \<mapsto> ps ! i, ''k'' \<mapsto> ks ! i, ''s0'' \<mapsto> s0s ! i, ''t'' \<mapsto> ts ! i, ''r'' \<mapsto> rs ! i))
           = Inr (0 - ps ! i)"
      by (simp add: black_scholes_def dict_item_def nd_get_def Let_def)
  qed
  show ?thesis by (intro conjI 1 2)
qed

theorem black_scholes_swallows_witness:
  "opt_bsm_price demo_iv_env ''C'' [272] 0 [1 / 60] (15 / 100) (1 / 50) 0 = Inl (LibraryError 1) \<and>
   demo_data 0 ''p'' = Some 5 \<and>
   black_scholes demo_iv_env (15 / 100) (demo_data 0) = Inr (- 5) \<and>
   (0 :: nat) < length [5 :: real] \<and>
   (\<exists>data. root_finder_step demo_iv_env [5] [272] [0] [1 / 60] [1 / 50] 0 (Map.empty, 0) []
      = ([(Contfn_cntin, None)], Inr (data, 1)))"
proof -
  have d: "demo_data 0 ''k'' = Some 272 \<and> demo_data 0 ''s0'' = Some 0 \<and>
    demo_data 0 ''t'' = Some (1 / 60) \<and> demo_data 0 ''r'' = Some (1 / 50) \<and>
    demo_data 0 ''p'' = Some 5"
    by (simp add: demo_data_def)
  have e: "opt_bsm_price demo_iv_env ''C'' [272] 0 [1 / 60] (15 / 100) (1 / 50) 0
      = Inl (LibraryError 1)"
    by (simp add: demo_iv_env_def)
  note t = black_scholes_swallows [of "demo_data 0" 272 0 "1 / 60" "1 / 50" 5 demo_iv_env
      "15 / 100" "LibraryError 1" 0 "[5]" "[272]" "[0]" "[1 / 60]" "[1 / 50]" Map.empty 0 "[]"]
  from t [THEN conjunct1] d e
  have 1: "black_scholes demo_iv_env (15 / 100) (demo_data 0) = Inr (- 5)"
    by simp
  have i: "(0 :: nat) < length [5 :: real] \<and> (0 :: nat) < length [272 :: real] \<and>
    (0 :: nat) < length [0 :: real] \<and> (0 :: nat) < length [1 / 60 :: real] \<and>
    (0 :: nat) < length [1 / 50 :: real]"
    by simp
  have m: "Map.empty(''p'' \<mapsto> [5] ! 0, ''k'' \<mapsto> [272] ! 0, ''s0'' \<mapsto> [0] ! 0,
      ''t'' \<mapsto> [1 / 60] ! 0, ''r'' \<mapsto> [1 / 50 :: real] ! 0) = demo_data 0"
    by (simp add: demo_data_def)
  from t [THEN conjunct2, rule_format, OF i]
  have step: "root_finder_step demo_iv_env [5] [272] [0] [1 / 60] [1 / 50] 0 (Map.empty, 0) []
        = ([] @ [(Contfn_cntin, outcome (contfn_cntin demo_iv_env [] (15 / 100)
              (black_scholes demo_iv_env) (1 / 10 ^ 14) 0 500 (demo_data 0)))],
           Inr (case contfn_cntin demo_iv_env [] (15 / 100) (black_scholes demo_iv_env)
                (1 / 10 ^ 14) 0 500 (demo_data 0) of
              Inl e \<Rightarrow> (demo_data 0, 0 + 1)
            | Inr vol \<Rightarrow> (demo_data 0, if vol < 0 then 0 + 1 else 0)))"
    unfolding m by blast
  have c0: "contfn_cntin demo_iv_env h x f eps eta nfmax dat
      = (case f x dat of
           Inl e \<Rightarrow> Inl e
         | Inr v \<Rightarrow> if v = 0 then Inr x else if v < 0 then Inr (- 1) else Inl (LibraryError 7))"
    for h x f eps eta nfmax dat
    by (simp add: demo_iv_env_def)
  have c: "contfn_cntin demo_iv_env [] (15 / 100) (black_scholes demo_iv_env) (1 / 10 ^ 14) 0 500
      (demo_data 0) = Inr (- 1)"
    unfolding c0 1 by simp
  have 2: "\<exists>data. root_finder_step demo_iv_env [5] [272] [0] [1 / 60] [1 / 50] 0 (Map.empty, 0) []
      = ([(Contfn_cntin, None)], Inr (data, 1))"
    unfolding step c by (simp add: outcome_def)
  from d have p: "demo_data 0 ''p'' = Some 5" by simp
  show ?thesis by (intro conjI e p 1 2) simp
qed

text \<open>
  Claim C9.  The categorization cell ends without an exception exactly when, for
  every link \<open>i\<close>, the coefficient matrix \<open>h\<close> of the notebook has two rows with a
  column \<open>i\<close> and a title was found for the page.  It calls no external routine
  and changes nothing but the output, to which it adds one line per link, in order:
  the line of article \<open>i\<close> shows its title and category 0 (Trump) when
  \<open>h[0,i] > h[1,i]\<close>, and category 1 (Brexit) otherwise, so also when the two
  coefficients are equal.  In a run of the factorization cell and the cells after it,
  these lines end the output, with \<open>h\<close> the matrix that \<open>real_nmf\<close> returned.
\<close>

theorem category_assignment:
  "(cell_categories nb hist = (hist', Inr nb') \<longrightarrow>
      hist' = hist \<and>
      (\<forall>i<length (nb_links nb).
           1 < length (nb_h nb) \<and> i < length (nb_h nb ! 0) \<and> i < length (nb_h nb ! 1) \<and>
           i < length (nb_titles nb) \<and> nb_titles nb ! i \<noteq> []) \<and>
      nb' = nb\<lparr>nb_stdout := nb_stdout nb @ map (\<lambda>i.
         Out_str (ascii ''Article '' @ ljust 78 32 ([34] @ nb_titles nb ! i ! 0 @ [34]) @
           ascii '' is in category '' @
           (if nb_h nb ! 0 ! i > nb_h nb ! 1 ! i then ascii ''0 (Trump)'' else ascii ''1 (Brexit)'')))
         [0..<length (nb_links nb)]\<rparr>) \<and>
   ((\<forall>i<length (nb_links nb).
           1 < length (nb_h nb) \<and> i < length (nb_h nb ! 0) \<and> i < length (nb_h nb ! 1) \<and>
           i < length (nb_titles nb) \<and> nb_titles nb ! i \<noteq> []) \<longrightarrow>
      (\<exists>nb'. cell_categories nb hist = (hist, Inr nb'))) \<and>
   (bind (cell_nmf env nb0) (after_nmf env) hist0 = (hist1, Inr nb1) \<longrightarrow>
      real_nmf env hist0 (nb_a nb0) 2 5842 (1 / 10 ^ 6) 500 = Inr (nb_w nb1, nb_h nb1) \<and>
      (\<exists>out. nb_stdout nb1 = out @ map (\<lambda>i.
         Out_str (ascii ''Article '' @ ljust 78 32 ([34] @ nb_titles nb0 ! i ! 0 @ [34]) @
           ascii '' is in category '' @
           (if nb_h nb1 ! 0 ! i > nb_h nb1 ! 1 ! i then ascii ''0 (Trump)'' else ascii ''1 (Brexit)'')))
         [0..<length (nb_links nb0)])) \<and>
   (1 < length h \<and> j < length (h ! 0) \<and> j < length (h ! 1) \<longrightarrow>
      category_of h j = Inr (if h ! 0 ! j > h ! 1 ! j then 0 else 1) \<and>
      (category_of h j = Inr 0 \<longleftrightarrow> h ! 0 ! j > h ! 1 ! j) \<and>
      (category_of h j = Inr 1 \<longleftrightarrow> \<not> h ! 0 ! j > h ! 1 ! j) \<and>
      (h ! 0 ! j = h ! 1 ! j \<longrightarrow> category_of h j = Inr 1))"
proof -
  have 1: "(cell_categories nb hist = (hist', Inr nb') \<longrightarrow>
      hist' = hist \<and>
      (\<forall>i<length (nb_links nb).
           1 < length (nb_h nb) \<and> i < length (nb_h nb ! 0) \<and> i < length (nb_h nb ! 1) \<and>
           i < length (nb_titles nb) \<and> nb_titles nb ! i \<noteq> []) \<and>
      nb' = nb\<lparr>nb_stdout := nb_stdout nb @ map (\<lambda>i.
         Out_str (ascii ''Article '' @ ljust 78 32 ([34] @ nb_titles nb ! i ! 0 @ [34]) @
           ascii '' is in category '' @
           (if nb_h nb ! 0 ! i > nb_h nb ! 1 ! i then ascii ''0 (Trump)'' else ascii ''1 (Brexit)'')))
         [0..<length (nb_links nb)]\<rparr>)"
    unfolding cell_categories_run category_ready_def category_line_def by simp
  have 2: "((\<forall>i<length (nb_links nb).
           1 < length (nb_h nb) \<and> i < length (nb_h nb ! 0) \<and> i < length (nb_h nb ! 1) \<and>
           i < length (nb_titles nb) \<and> nb_titles nb ! i \<noteq> []) \<longrightarrow>
      (\<exists>nb'. cell_categories nb hist = (hist, Inr nb')))"
    unfolding cell_categories_run category_ready_def by simp
  have 3: "(bind (cell_nmf env nb0) (after_nmf env) hist0 = (hist1, Inr nb1) \<longrightarrow>
      real_nmf env hist0 (nb_a nb0) 2 5842 (1 / 10 ^ 6) 500 = Inr (nb_w nb1, nb_h nb1) \<and>
      (\<exists>out. nb_stdout nb1 = out @ map (\<lambda>i.
         Out_str (ascii ''Article '' @ ljust 78 32 ([34] @ nb_titles nb0 ! i ! 0 @ [34]) @
           ascii '' is in category '' @
           (if nb_h nb1 ! 0 ! i > nb_h nb1 ! 1 ! i then ascii ''0 (Trump)'' else ascii ''1 (Brexit)'')))
         [0..<length (nb_links nb0)]))"
  proof (rule impI)
    assume run: "bind (cell_nmf env nb0) (after_nmf env) hist0 = (hist1, Inr nb1)"
    from run obtain h nb' where
      a: "cell_nmf env nb0 hist0 = (h, Inr nb')" and b: "after_nmf env nb' h = (hist1, Inr nb1)"
      unfolding bind_run by blast
    from cell_nmf_run [OF a] after_nmf_frame [OF b]
    have r: "real_nmf env hist0 (nb_a nb0) 2 5842 (1 / 10 ^ 6) 500 = Inr (nb_w nb1, nb_h nb1)"
      by (simp add: factors_def)
    from notebook_categories [OF run] obtain nb3 where
      k: "nb_h nb3 = nb_h nb1" "nb_titles nb3 = nb_titles nb0"
      and out: "nb_stdout nb1 = nb_stdout nb3 @ map (category_line nb3) [0..<length (nb_links nb0)]"
      by blast
    have "category_line nb3 = (\<lambda>i.
         Out_str (ascii ''Article '' @ ljust 78 32 ([34] @ nb_titles nb0 ! i ! 0 @ [34]) @
           ascii '' is in category '' @
           (if nb_h nb1 ! 0 ! i > nb_h nb1 ! 1 ! i then ascii ''0 (Trump)'' else ascii ''1 (Brexit)'')))"
      by (rule ext) (simp add: category_line_def k)
    with out r show "real_nmf env hist0 (nb_a nb0) 2 5842 (1 / 10 ^ 6) 500 = Inr (nb_w nb1, nb_h nb1) \<and>
      (\<exists>out. nb_stdout nb1 = out @ map (\<lambda>i.
         Out_str (ascii ''Article '' @ ljust 78 32 ([34] @ nb_titles nb0 ! i ! 0 @ [34]) @
           ascii '' is in category '' @
           (if nb_h nb1 ! 0 ! i > nb_h nb1 ! 1 ! i then ascii ''0 (Trump)'' else ascii ''1 (Brexit)'')))
         [0..<length (nb_links nb0)])"
      by auto
  qed
  have 4: "(1 < length h \<and> j < length (h ! 0) \<and> j < length (h ! 1) \<longrightarrow>
      category_of h j = Inr (if h ! 0 ! j > h ! 1 ! j then 0 else 1) \<and>
      (category_of h j = Inr 0 \<longleftrightarrow> h ! 0 ! j > h ! 1 ! j) \<and>
      (category_of h j = Inr 1 \<longleftrightarrow> \<not> h ! 0 ! j > h ! 1 ! j) \<and>
      (h ! 0 ! j = h ! 1 ! j \<longrightarrow> category_of h j = Inr 1))"
  proof (rule impI)
    assume "1 < length h \<and> j < length (h ! 0) \<and> j < length (h ! 1)"
    then have "0 < length h" "1 < length h" "j < length (h ! 0)" "j < length (h ! 1)"
      by auto
    then have "nd_get h 0 j = Inr (h ! 0 ! j)" "nd_get h 1 j = Inr (h ! 1 ! j)"
      by (simp_all add: nd_get_def)
    then show "category_of h j = Inr (if h ! 0 ! j > h ! 1 ! j then 0 else 1) \<and>
      (category_of h j = Inr 0 \<longleftrightarrow> h ! 0 ! j > h ! 1 ! j) \<and>
      (category_of h j = Inr 1 \<longleftrightarrow> \<not> h ! 0 ! j > h ! 1 ! j) \<and>
      (h ! 0 ! j = h ! 1 ! j \<longrightarrow> category_of h j = Inr 1)"
      by (simp add: category_of_def)
  qed
  show ?thesis by (intro conjI 1 2 3 4)
qed

theorem category_assignment_witness:
  "(\<exists>nb'. cell_categories demo_factored [] = ([], Inr nb') \<and>
      nb_stdout nb' =
       [Out_str (ascii ''Article '' @ ljust 78 32 ([34] @ ascii ''A'' @ [34]) @
        ascii '' is in category 0 (Trump)''),
        Out_str (ascii ''Article '' @ ljust 78 32 ([34] @ ascii ''B'' @ [34]) @
        ascii '' is in category 1 (Brexit)''),
        Out_str (ascii ''Article '' @ ljust 78 32 ([34] @ ascii ''C'' @ [34]) @
        ascii '' is in category 1 (Brexit)'')]) \<and>
   category_of [[3, 1, 2], [1, 1, 5]] 0 = Inr 0 \<and>
   category_of [[3, 1, 2], [1, 1, 5]] 1 = Inr 1 \<and>
   category_of [[3, 1, 2], [1, 1, 5]] 2 = Inr 1 \<and>
   (\<exists>hist1 nb1 out.
      bind (cell_nmf demo_env demo_parsed) (after_nmf demo_env) [] = (hist1, Inr nb1) \<and>
      nb_h nb1 = [replicate 15 2, 1 # replicate 14 2] \<and>
      nb_stdout nb1 = out @ map (\<lambda>i.
         Out_str (ascii ''Article '' @ ljust 78 32 ([34] @ nb_titles demo_parsed ! i ! 0 @ [34]) @
           ascii '' is in category '' @
           (if nb_h nb1 ! 0 ! i > nb_h nb1 ! 1 ! i then ascii ''0 (Trump)'' else ascii ''1 (Brexit)'')))
         [0..<15])"
proof -
  have u: "[0..<3] = [0, Suc 0, Suc (Suc 0)]" by (simp add: numeral_3_eq_3)
  have f: "nb_links demo_factored = [ascii ''u1'', ascii ''u2'', ascii ''u3'']"
    "nb_titles demo_factored = [[ascii ''A''], [ascii ''B''], [ascii ''C'']]"
    "nb_h demo_factored = [[3, 1, 2], [1, 1, 5]]"
    "nb_stdout demo_factored = []"
    by (simp_all add: demo_factored_def empty_notebook_def)
  have ready: "\<forall>i<length (nb_links demo_factored).
           1 < length (nb_h demo_factored) \<and> i < length (nb_h demo_factored ! 0) \<and> i < length (nb_h demo_factored ! 1) \<and>
           i < length (nb_titles demo_factored) \<and> nb_titles demo_factored ! i \<noteq> []"
    unfolding f by (auto simp: numeral_3_eq_3 less_Suc_eq)
  from category_assignment [of demo_factored "[]" "[]" demo_factored] ready
  obtain nb' where run: "cell_categories demo_factored [] = ([], Inr nb')"
    by blast
  from category_assignment [of demo_factored "[]" "[]" nb'] run
  have "nb' = demo_factored\<lparr>nb_stdout := nb_stdout demo_factored @ map (\<lambda>i.
         Out_str (ascii ''Article '' @ ljust 78 32 ([34] @ nb_titles demo_factored ! i ! 0 @ [34]) @
           ascii '' is in category '' @
           (if nb_h demo_factored ! 0 ! i > nb_h demo_factored ! 1 ! i then ascii ''0 (Trump)'' else ascii ''1 (Brexit)'')))
         [0..<length (nb_links demo_factored)]\<rparr>"
    by blast
  then have out: "nb_stdout nb' =
       [Out_str (ascii ''Article '' @ ljust 78 32 ([34] @ ascii ''A'' @ [34]) @
        ascii '' is in category 0 (Trump)''),
        Out_str (ascii ''Article '' @ ljust 78 32 ([34] @ ascii ''B'' @ [34]) @
        ascii '' is in category 1 (Brexit)''),
        Out_str (ascii ''Article '' @ ljust 78 32 ([34] @ ascii ''C'' @ [34]) @
        ascii '' is in category 1 (Brexit)'')]"
    unfolding f by (simp add: u ascii_def)
  have 1: "\<exists>nb'. cell_categories demo_factored [] = ([], Inr nb') \<and>
      nb_stdout nb' =
       [Out_str (ascii ''Article '' @ ljust 78 32 ([34] @ ascii ''A'' @ [34]) @
        ascii '' is in category 0 (Trump)''),
        Out_str (ascii ''Article '' @ ljust 78 32 ([34] @ ascii ''B'' @ [34]) @
        ascii '' is in category 1 (Brexit)''),
        Out_str (ascii ''Article '' @ ljust 78 32 ([34] @ ascii ''C'' @ [34]) @
        ascii '' is in category 1 (Brexit)'')]"
    using run out by blast
  have c: "category_of [[3, 1, 2], [1, 1, 5]] 0 = Inr 0"
    "category_of [[3, 1, 2], [1, 1, 5]] 1 = Inr 1"
    "category_of [[3, 1, 2], [1, 1, 5]] 2 = Inr 1"
    using category_assignment [where h = "[[3, 1, 2], [1, 1, 5]]" and j = 0]
      category_assignment [where h = "[[3, 1, 2], [1, 1, 5]]" and j = 1]
      category_assignment [where h = "[[3, 1, 2], [1, 1, 5]]" and j = 2]
    by simp_all
  from demo_run obtain hist1 nb1 where
    nrun: "bind (cell_nmf demo_env demo_parsed) (after_nmf demo_env) [] = (hist1, Inr nb1)"
    by blast
  from category_assignment [where env = demo_env and ?nb0.0 = demo_parsed and ?hist0.0 = "[]"
      and ?hist1.0 = hist1 and ?nb1.0 = nb1] nrun
  have r: "real_nmf demo_env [] (nb_a demo_parsed) 2 5842 (1 / 10 ^ 6) 500
      = Inr (nb_w nb1, nb_h nb1)"
    and o: "\<exists>out. nb_stdout nb1 = out @ map (\<lambda>i.
         Out_str (ascii ''Article '' @ ljust 78 32 ([34] @ nb_titles demo_parsed ! i ! 0 @ [34]) @
           ascii '' is in category '' @
           (if nb_h nb1 ! 0 ! i > nb_h nb1 ! 1 ! i then ascii ''0 (Trump)'' else ascii ''1 (Brexit)'')))
         [0..<length (nb_links demo_parsed)]"
    by blast+
  from r have h: "nb_h nb1 = [replicate 15 2, 1 # replicate 14 2]"
    by (simp add: demo_env_def)
  have "length (nb_links demo_parsed) = 15"
    by (simp add: demo_parsed_def empty_notebook_def)
  with o obtain out where "nb_stdout nb1 = out @ map (\<lambda>i.
         Out_str (ascii ''Article '' @ ljust 78 32 ([34] @ nb_titles demo_parsed ! i ! 0 @ [34]) @
           ascii '' is in category '' @
           (if nb_h nb1 ! 0 ! i > nb_h nb1 ! 1 ! i then ascii ''0 (Trump)'' else ascii ''1 (Brexit)'')))
         [0..<15]"
    by auto
  with nrun h have 2: "\<exists>hist1 nb1 out.
      bind (cell_nmf demo_env demo_parsed) (after_nmf demo_env) [] = (hist1, Inr nb1) \<and>
      nb_h nb1 = [replicate 15 2, 1 # replicate 14 2] \<and>
      nb_stdout nb1 = out @ map (\<lambda>i.
         Out_str (ascii ''Article '' @ ljust 78 32 ([34] @ nb_titles demo_parsed ! i ! 0 @ [34]) @
           ascii '' is in category '' @
           (if nb_h nb1 ! 0 ! i > nb_h nb1 ! 1 ! i then ascii ''0 (Trump)'' else ascii ''1 (Brexit)'')))
         [0..<15]"
    by blast
  show ?thesis by (intro conjI 1 c 2)
qed

text \<open>
  Claim C10.  In a run of the parsing cell from the start of the notebook that ends
  without an exception, the calls are two downloads of each link, in the order of the
  links.  The counter of a link counts the tokens of the paragraphs found in the
  lowercased first download of the link, the word set is made of these tokens, and
  the titles are found in the second download, as it is.  What the second download
  returns has no influence on the counters and on the word set: any two worlds that
  agree on the lowercasing and on what the first download of each link returns (the
  downloads made after an even number of calls) give the same counters and the same
  word set.  The paragraphs found in a string are the texts between \<open><p>\<close> and the
  next \<open></p>\<close> on the same line: every paragraph found stands between the two tags
  in the string and contains neither a newline nor the closing tag; the first such
  text is the first paragraph found, and the search goes on behind its closing tag;
  nothing is found in a string without such a text.
\<close>

theorem pages_fetched_twice:
  assumes "cell_parse env links nb0 [] = (hist, Inr nb)"
  shows "map fst hist = concat (map (\<lambda>link. [Urlopen link, Urlopen link]) links) \<and>
    (\<exists>pages pages2. length pages = length links \<and> length pages2 = length links \<and>
       (\<forall>j<length links.
          urlopen_read_decode env (fetched (take j links)) (links ! j) = Inr (pages ! j) \<and>
          urlopen_read_decode env (fetched (take j links) @ [(Urlopen (links ! j), None)])
            (links ! j) = Inr (pages2 ! j) \<and>
          (\<forall>w. dict_get (nb_dicts nb ! j) w 0
             = int (count_list (pagewords (findall_tag (ascii ''p'') (str_lower env (pages ! j)))) w))) \<and>
       nb_dicts nb = map (\<lambda>page. Counter (pagewords (findall_tag (ascii ''p'') (str_lower env page)))) pages \<and>
       nb_wordset nb = (\<Union>page\<in>set pages. set (pagewords (findall_tag (ascii ''p'') (str_lower env page)))) \<and>
       nb_titles nb = map (findall_tag (ascii ''title'')) pages2) \<and>
    (\<forall>env' hist' nb'.
       str_lower env' = str_lower env \<and>
       (\<forall>h link. even (length h) \<longrightarrow>
          urlopen_read_decode env' h link = urlopen_read_decode env h link) \<and>
       cell_parse env' links nb0 [] = (hist', Inr nb') \<longrightarrow>
       nb_dicts nb' = nb_dicts nb \<and> nb_wordset nb' = nb_wordset nb) \<and>
    (\<forall>paras. pagewords paras = concat (map (\<lambda>para. py_split (translate trans para)) paras)) \<and>
    (\<forall>s g. g \<in> set (findall_tag (ascii ''p'') s) \<longrightarrow>
       (\<exists>pre rest. s = pre @ ascii ''<p>'' @ g @ ascii ''</p>'' @ rest) \<and>
       10 \<notin> set g \<and> \<not> sublist (ascii ''</p>'') g) \<and>
    (\<forall>s pre g rest.
       s = pre @ ascii ''<p>'' @ g @ ascii ''</p>'' @ rest \<and>
       10 \<notin> set g \<and> \<not> sublist (ascii ''</p>'') g \<and>
       (\<forall>k<length pre. \<not> (\<exists>g' rest'. drop k s = ascii ''<p>'' @ g' @ ascii ''</p>'' @ rest' \<and> 10 \<notin> set g')) \<longrightarrow>
       findall_tag (ascii ''p'') s = g # findall_tag (ascii ''p'') rest) \<and>
    (\<forall>s. (\<forall>k<length s. \<not> (\<exists>g' rest'. drop k s = ascii ''<p>'' @ g' @ ascii ''</p>'' @ rest' \<and> 10 \<notin> set g')) \<longrightarrow>
       findall_tag (ascii ''p'') s = [])"
proof -
  from cell_parse_run [OF assms] obtain pages where
    hist: "hist = fetched links"
    and len: "length pages = length links"
    and fetch: "\<forall>j<length links.
         urlopen_read_decode env (fetched (take j links)) (links ! j) = Inr (pages ! j)"
    and dicts: "nb_dicts nb = map (\<lambda>page. Counter (page_words env page)) pages"
    and wordset: "nb_wordset nb = (\<Union>page\<in>set pages. set (page_words env page))"
    by auto
  from cell_parse_titles [OF assms] obtain pages2 where
    len2: "length pages2 = length links"
    and fetch2: "\<forall>j<length links.
          urlopen_read_decode env (fetched (take j links) @ [(Urlopen (links ! j), None)])
            (links ! j) = Inr (pages2 ! j)"
    and titles: "nb_titles nb = map (findall_tag (ascii ''title'')) pages2"
    by auto
  have "map fst (fetched xs) = concat (map (\<lambda>link. [Urlopen link, Urlopen link]) xs)" for xs
    by (induction xs) (simp_all add: fetched_def)
  then have 1: "map fst hist = concat (map (\<lambda>link. [Urlopen link, Urlopen link]) links)"
    by (simp add: hist)
  have counts: "dict_get (nb_dicts nb ! j) w 0
      = int (count_list (pagewords (findall_tag (ascii ''p'') (str_lower env (pages ! j)))) w)"
    if "j < length links" for j w
    using that len by (simp add: dicts Counter_get page_words_def)
  have 3: "nb_dicts nb' = nb_dicts nb \<and> nb_wordset nb' = nb_wordset nb"
    if low: "str_lower env' = str_lower env"
      and same: "\<forall>h link. even (length h) \<longrightarrow>
          urlopen_read_decode env' h link = urlopen_read_decode env h link"
      and run: "cell_parse env' links nb0 [] = (hist', Inr nb')"
    for env' hist' nb'
  proof -
    from cell_parse_run [OF run] obtain pages' where
      len': "length pages' = length links"
      and fetch': "\<forall>j<length links.
         urlopen_read_decode env' (fetched (take j links)) (links ! j) = Inr (pages' ! j)"
      and dicts': "nb_dicts nb' = map (\<lambda>page. Counter (page_words env' page)) pages'"
      and wordset': "nb_wordset nb' = (\<Union>page\<in>set pages'. set (page_words env' page))"
      by auto
    have "pages' = pages"
    proof (rule nth_equalityI)
      show "length pages' = length pages" by (simp add: len len')
    next
      fix j assume "j < length pages'"
      then have j: "j < length links" by (simp add: len')
      have "even (length (fetched (take j links)))" by (simp add: length_fetched)
      with same have "urlopen_read_decode env' (fetched (take j links)) (links ! j)
          = urlopen_read_decode env (fetched (take j links)) (links ! j)" by blast
      with fetch fetch' j show "pages' ! j = pages ! j" by simp
    qed
    moreover have "page_words env' = page_words env"
      by (rule ext) (simp add: page_words_def low)
    ultimately show ?thesis by (simp add: dicts dicts' wordset wordset')
  qed
  have "length pages = length links \<and> length pages2 = length links \<and>
       (\<forall>j<length links.
          urlopen_read_decode env (fetched (take j links)) (links ! j) = Inr (pages ! j) \<and>
          urlopen_read_decode env (fetched (take j links) @ [(Urlopen (links ! j), None)])
            (links ! j) = Inr (pages2 ! j) \<and>
          (\<forall>w. dict_get (nb_dicts nb ! j) w 0
             = int (count_list (pagewords (findall_tag (ascii ''p'') (str_lower env (pages ! j)))) w))) \<and>
       nb_dicts nb = map (\<lambda>page. Counter (pagewords (findall_tag (ascii ''p'') (str_lower env page)))) pages \<and>
       nb_wordset nb = (\<Union>page\<in>set pages. set (pagewords (findall_tag (ascii ''p'') (str_lower env page)))) \<and>
       nb_titles nb = map (findall_tag (ascii ''title'')) pages2"
    using len len2 fetch fetch2 counts dicts wordset titles
    unfolding page_words_def by simp
  then have 2: "\<exists>pages pages2. length pages = length links \<and> length pages2 = length links \<and>
       (\<forall>j<length links.
          urlopen_read_decode env (fetched (take j links)) (links ! j) = Inr (pages ! j) \<and>
          urlopen_read_decode env (fetched (take j links) @ [(Urlopen (links ! j), None)])
            (links ! j) = Inr (pages2 ! j) \<and>
          (\<forall>w. dict_get (nb_dicts nb ! j) w 0
             = int (count_list (pagewords (findall_tag (ascii ''p'') (str_lower env (pages ! j)))) w))) \<and>
       nb_dicts nb = map (\<lambda>page. Counter (pagewords (findall_tag (ascii ''p'') (str_lower env page)))) pages \<and>
       nb_wordset nb = (\<Union>page\<in>set pages. set (pagewords (findall_tag (ascii ''p'') (str_lower env page)))) \<and>
       nb_titles nb = map (findall_tag (ascii ''title'')) pages2"
    by blast
  have all3: "\<forall>env' hist' nb'.
       str_lower env' = str_lower env \<and>
       (\<forall>h link. even (length h) \<longrightarrow>
          urlopen_read_decode env' h link = urlopen_read_decode env h link) \<and>
       cell_parse env' links nb0 [] = (hist', Inr nb') \<longrightarrow>
       nb_dicts nb' = nb_dicts nb \<and> nb_wordset nb' = nb_wordset nb"
  proof (intro allI impI)
    fix env' hist' nb'
    assume "str_lower env' = str_lower env \<and>
       (\<forall>h link. even (length h) \<longrightarrow>
          urlopen_read_decode env' h link = urlopen_read_decode env h link) \<and>
       cell_parse env' links nb0 [] = (hist', Inr nb')"
    then show "nb_dicts nb' = nb_dicts nb \<and> nb_wordset nb' = nb_wordset nb"
      using 3 [of env' hist' nb'] by (elim conjE) simp
  qed
  have 4: "\<forall>paras. pagewords paras = concat (map (\<lambda>para. py_split (translate trans para)) paras)"
    by (simp add: pagewords_concat)
  have 5: "\<forall>s g. g \<in> set (findall_tag (ascii ''p'') s) \<longrightarrow>
       (\<exists>pre rest. s = pre @ ascii ''<p>'' @ g @ ascii ''</p>'' @ rest) \<and>
       10 \<notin> set g \<and> \<not> sublist (ascii ''</p>'') g"
    using findall_p_element by blast
  have 6: "\<forall>s pre g rest.
       s = pre @ ascii ''<p>'' @ g @ ascii ''</p>'' @ rest \<and>
       10 \<notin> set g \<and> \<not> sublist (ascii ''</p>'') g \<and>
       (\<forall>k<length pre. \<not> (\<exists>g' rest'. drop k s = ascii ''<p>'' @ g' @ ascii ''</p>'' @ rest' \<and> 10 \<notin> set g')) \<longrightarrow>
       findall_tag (ascii ''p'') s = g # findall_tag (ascii ''p'') rest"
  proof (intro allI impI)
    fix s pre g rest
    assume "s = pre @ ascii ''<p>'' @ g @ ascii ''</p>'' @ rest \<and>
       10 \<notin> set g \<and> \<not> sublist (ascii ''</p>'') g \<and>
       (\<forall>k<length pre. \<not> (\<exists>g' rest'. drop k s = ascii ''<p>'' @ g' @ ascii ''</p>'' @ rest' \<and> 10 \<notin> set g'))"
    then show "findall_tag (ascii ''p'') s = g # findall_tag (ascii ''p'') rest"
      by (elim conjE) (rule findall_p_first)
  qed
  have 7: "\<forall>s. (\<forall>k<length s. \<not> (\<exists>g' rest'. drop k s = ascii ''<p>'' @ g' @ ascii ''</p>'' @ rest' \<and> 10 \<notin> set g')) \<longrightarrow>
       findall_tag (ascii ''p'') s = []"
    using findall_p_none by blast
  show ?thesis by (intro conjI 1 2 all3 4 5 6 7)
qed

theorem pages_fetched_twice_witness:
  "(\<exists>hist nb hist' nb'.
     cell_parse demo_env demo_links empty_notebook [] = (hist, Inr nb) \<and>
     map fst hist = [Urlopen (ascii ''u1''), Urlopen (ascii ''u1''),
                     Urlopen (ascii ''u2''), Urlopen (ascii ''u2'')] \<and>
     nb_titles nb = [[ascii ''u1''], [ascii ''u2'']] \<and>
     dict_get (nb_dicts nb ! 0) (ascii ''deal'') 0 = 2 \<and>
     dict_get (nb_dicts nb ! 0) (ascii ''u1'') 0 = 0 \<and>
     cell_parse (demo_env\<lparr>urlopen_read_decode := \<lambda>hist link.
         if even (length hist) then Inr (demo_page link)
         else Inr (ascii ''<title>deal deal deal</title>'')\<rparr>)
       demo_links empty_notebook [] = (hist', Inr nb') \<and>
     nb_titles nb' = [[ascii ''deal deal deal''], [ascii ''deal deal deal'']] \<and>
     nb_dicts nb' = nb_dicts nb \<and> nb_wordset nb' = nb_wordset nb) \<and>
   findall_tag (ascii ''p'') (ascii ''x<p>a b</p>y'') = [ascii ''a b'']"
proof -
  let ?env' = "demo_env\<lparr>urlopen_read_decode := \<lambda>hist link.
         if even (length hist) then Inr (demo_page link)
         else Inr (ascii ''<title>deal deal deal</title>'')\<rparr>"
  from demo_parse obtain nb where
    run: "cell_parse demo_env demo_links empty_notebook [] = (fetched demo_links, Inr nb)"
    by blast
  have "\<exists>nb'. cell_parse ?env' demo_links empty_notebook [] = ([] @ fetched demo_links, Inr nb')"
    unfolding cell_parse_def Let_def
    by (rule parse_loop_returns) simp
  then obtain nb' where
    run': "cell_parse ?env' demo_links empty_notebook [] = (fetched demo_links, Inr nb')"
    by auto
  have same: "str_lower ?env' = str_lower demo_env \<and>
       (\<forall>h link. even (length h) \<longrightarrow>
          urlopen_read_decode ?env' h link = urlopen_read_decode demo_env h link) \<and>
       cell_parse ?env' demo_links empty_notebook [] = (fetched demo_links, Inr nb')"
    using run' by (simp add: demo_env_def)
  have two: "\<exists>a b. xs = [a, b]" if "length xs = length demo_links" for xs :: "pystr list"
    using that by (cases xs; cases "tl xs") (auto simp: demo_links_def)
  have l: "length demo_links = 2" "demo_links ! 0 = ascii ''u1''" "demo_links ! Suc 0 = ascii ''u2''"
    "take 0 demo_links = []" "take (Suc 0) demo_links = [ascii ''u1'']"
    by (simp_all add: demo_links_def)
  note t = pages_fetched_twice [OF run]
  note t1 = t [THEN conjunct1]
  note t2 = t [THEN conjunct2, THEN conjunct1]
  note t3 = t [THEN conjunct2, THEN conjunct2, THEN conjunct1]
  note t6 = t [THEN conjunct2, THEN conjunct2, THEN conjunct2, THEN conjunct2, THEN conjunct2,
      THEN conjunct1]
  note t7 = t [THEN conjunct2, THEN conjunct2, THEN conjunct2, THEN conjunct2, THEN conjunct2,
      THEN conjunct2]
  note calls = t1
  note indep = t3
  from t2 obtain pages pages2 where
    len: "length pages = length demo_links" "length pages2 = length demo_links"
    and fetch: "\<forall>j<length demo_links.
          urlopen_read_decode demo_env (fetched (take j demo_links)) (demo_links ! j)
            = Inr (pages ! j) \<and>
          urlopen_read_decode demo_env
            (fetched (take j demo_links) @ [(Urlopen (demo_links ! j), None)])
            (demo_links ! j) = Inr (pages2 ! j) \<and>
          (\<forall>w. dict_get (nb_dicts nb ! j) w 0
             = int (count_list (pagewords (findall_tag (ascii ''p'')
                 (str_lower demo_env (pages ! j)))) w))"
    and titles: "nb_titles nb = map (findall_tag (ascii ''title'')) pages2"
    by blast
  from two [OF len(2)] obtain a b where ab: "pages2 = [a, b]" by blast
  from fetch [rule_format, of 0] have p0: "pages ! 0 = demo_page (ascii ''u1'')"
    and q0: "a = ascii ''<title>'' @ ascii ''u1'' @ ascii ''</title>''"
    and c0: "\<And>w. dict_get (nb_dicts nb ! 0) w 0
         = int (count_list (pagewords (findall_tag (ascii ''p'')
             (str_lower demo_env (pages ! 0)))) w)"
    by (simp_all add: ab l demo_env_def fetched_def)
  from fetch [rule_format, of "Suc 0"] have
    q1: "b = ascii ''<title>'' @ ascii ''u2'' @ ascii ''</title>''"
    by (simp_all add: ab l demo_env_def fetched_def)
  have ft: "findall_tag (ascii ''title'') (ascii ''<title>'' @ ascii ''u1'' @ ascii ''</title>'')
      = [ascii ''u1'']"
    "findall_tag (ascii ''title'') (ascii ''<title>'' @ ascii ''u2'' @ ascii ''</title>'')
      = [ascii ''u2'']"
    "findall_tag (ascii ''title'') (ascii ''<title>deal deal deal</title>'')
      = [ascii ''deal deal deal'']"
    by (simp_all add: ascii_def)
  have ti: "nb_titles nb = [[ascii ''u1''], [ascii ''u2'']]"
    unfolding titles ab q0 q1 by (simp only: list.map ft)
  have w0: "pagewords (findall_tag (ascii ''p'') (str_lower demo_env (pages ! 0)))
      = [ascii ''brexit'', ascii ''deal'', ascii ''no'', ascii ''deal'', ascii ''brexit'']"
    using demo_page_words(1) by (simp only: p0 page_words_def)
  have d0: "dict_get (nb_dicts nb ! 0) (ascii ''deal'') 0 = 2"
    "dict_get (nb_dicts nb ! 0) (ascii ''u1'') 0 = 0"
    unfolding c0 w0 by (simp_all add: ascii_def)
  from pages_fetched_twice [OF run', THEN conjunct2, THEN conjunct1] obtain pages' pages2' where
    len': "length pages' = length demo_links" "length pages2' = length demo_links"
    and fetch': "\<forall>j<length demo_links.
          urlopen_read_decode ?env' (fetched (take j demo_links)) (demo_links ! j)
            = Inr (pages' ! j) \<and>
          urlopen_read_decode ?env'
            (fetched (take j demo_links) @ [(Urlopen (demo_links ! j), None)])
            (demo_links ! j) = Inr (pages2' ! j) \<and>
          (\<forall>w. dict_get (nb_dicts nb' ! j) w 0
             = int (count_list (pagewords (findall_tag (ascii ''p'')
                 (str_lower ?env' (pages' ! j)))) w))"
    and titles': "nb_titles nb' = map (findall_tag (ascii ''title'')) pages2'"
    by blast
  from two [OF len'(2)] obtain a' b' where ab': "pages2' = [a', b']" by blast
  from fetch' [rule_format, of 0] fetch' [rule_format, of "Suc 0"]
  have q': "a' = ascii ''<title>deal deal deal</title>''"
    "b' = ascii ''<title>deal deal deal</title>''"
    by (simp_all add: ab' l fetched_def)
  have ti': "nb_titles nb' = [[ascii ''deal deal deal''], [ascii ''deal deal deal'']]"
    unfolding titles' ab' q' by (simp only: list.map ft)
  from indep [rule_format, OF same] have eq: "nb_dicts nb' = nb_dicts nb" "nb_wordset nb' = nb_wordset nb"
    by simp_all
  from calls have m: "map fst (fetched demo_links)
      = [Urlopen (ascii ''u1''), Urlopen (ascii ''u1''), Urlopen (ascii ''u2''), Urlopen (ascii ''u2'')]"
    by (simp add: demo_links_def)
  have A: "\<exists>hist nb hist' nb'.
     cell_parse demo_env demo_links empty_notebook [] = (hist, Inr nb) \<and>
     map fst hist = [Urlopen (ascii ''u1''), Urlopen (ascii ''u1''),
                     Urlopen (ascii ''u2''), Urlopen (ascii ''u2'')] \<and>
     nb_titles nb = [[ascii ''u1''], [ascii ''u2'']] \<and>
     dict_get (nb_dicts nb ! 0) (ascii ''deal'') 0 = 2 \<and>
     dict_get (nb_dicts nb ! 0) (ascii ''u1'') 0 = 0 \<and>
     cell_parse ?env' demo_links empty_notebook [] = (hist', Inr nb') \<and>
     nb_titles nb' = [[ascii ''deal deal deal''], [ascii ''deal deal deal'']] \<and>
     nb_dicts nb' = nb_dicts nb \<and> nb_wordset nb' = nb_wordset nb"
    apply (rule exI [where x = "fetched demo_links"])
    apply (rule exI [where x = nb])
    apply (rule exI [where x = "fetched demo_links"])
    apply (rule exI [where x = nb'])
    apply (intro conjI run run' m ti d0 ti' eq)
    done
  note first = t6
  note none = t7
  have h1: "ascii ''x<p>a b</p>y'' = ascii ''x'' @ ascii ''<p>'' @ ascii ''a b'' @ ascii ''</p>'' @ ascii ''y''"
    by (simp add: ascii_def)
  have h2: "10 \<notin> set (ascii ''a b'')" by (simp add: ascii_def)
  have h3: "\<not> sublist (ascii ''</p>'') (ascii ''a b'')"
    by (simp add: ascii_def sublist_Cons_right)
  have h4: "\<forall>k<length (ascii ''x''). \<not> (\<exists>g' rest'.
      drop k (ascii ''x<p>a b</p>y'') = ascii ''<p>'' @ g' @ ascii ''</p>'' @ rest' \<and> 10 \<notin> set g')"
    by (simp add: ascii_def)
  from first [rule_format, of "ascii ''x<p>a b</p>y''" "ascii ''x''" "ascii ''a b''" "ascii ''y''"]
    h1 h2 h3 h4
  have f1: "findall_tag (ascii ''p'') (ascii ''x<p>a b</p>y'')
      = ascii ''a b'' # findall_tag (ascii ''p'') (ascii ''y'')"
    by blast
  have "\<forall>k<length (ascii ''y''). \<not> (\<exists>g' rest'.
      drop k (ascii ''y'') = ascii ''<p>'' @ g' @ ascii ''</p>'' @ rest' \<and> 10 \<notin> set g')"
    by (simp add: ascii_def)
  with none have "findall_tag (ascii ''p'') (ascii ''y'') = []" by blast
  with f1 have B: "findall_tag (ascii ''p'') (ascii ''x<p>a b</p>y'') = [ascii ''a b'']"
    by simp
  show ?thesis by (intro conjI A B)
qed

end
